theory Spec2Isabelle
  imports Complex_Main
begin

unbundle bit_operations_syntax

section \<open>The block cellular automaton of Block_CA.py\<close>

text \<open>
  The simulation core of \<^verbatim>\<open>Block_CA.py\<close>: the classes \<^verbatim>\<open>Cell\<close>, \<^verbatim>\<open>Board\<close> and
  \<^verbatim>\<open>GameManager\<close>. The grid of the source is a numpy array of \<^verbatim>\<open>Cell\<close> objects, and the
  density-3 branch of the rule exchanges the objects held at four positions before it
  flips the four objects it read earlier. The model therefore keeps object identity:
  a board has a grid from positions to cell objects and a store from cell objects to
  their \<^verbatim>\<open>state\<close> attribute. Python integers are \<open>int\<close>. Every exception the source can
  raise is a value of \<open>error\<close>, and a fallible operation returns \<open>error + 'a\<close>.
  The states the program stores are 0 and 1 (lines 11 and 15). A state drawn by numpy is
  a 64-bit integer, so the sum of line 88 and the flip of line 16 agree with the model's
  \<open>int\<close> as long as every state stays below \<open>2 ^ 63\<close>; a pattern holding a larger value is
  outside what the model describes.
\<close>

subsection \<open>Errors and the random source\<close>

datatype error = ValueError | IndexError | ZeroDivisionError

text \<open>
  The source draws from numpy's global generator. The model takes the outcomes of the
  draws as a parameter: \<open>cell_draw k\<close> is the coin of the \<open>k\<close>-th \<^verbatim>\<open>Cell\<close> created,
  \<open>top_draw\<close> and \<open>left_draw\<close> are the raw numbers behind the two \<^verbatim>\<open>randint\<close> calls of
  \<^verbatim>\<open>_place_pattern\<close>. Each function below maps every value of the parameter to an outcome
  the library can produce, and reaches every such outcome.
\<close>

record draws =
  cell_draw :: "nat \<Rightarrow> bool"
  top_draw :: nat
  left_draw :: nat

text \<open>
  \<^verbatim>\<open>np.random.choice([0, 1], p=[1 - p, p])\<close>: numpy raises \<^verbatim>\<open>ValueError\<close> when a
  probability is negative, that is when \<open>p\<close> is outside \<open>[0, 1]\<close>; otherwise the result is
  1 with probability \<open>p\<close>, so never 1 when \<open>p = 0\<close> and always 1 when \<open>p = 1\<close>. The
  probability is a Python float; only its comparisons with 0 and 1 matter here.
\<close>

definition drawn_value :: "real \<Rightarrow> bool \<Rightarrow> int" where
  "drawn_value p coin = (if p = 0 then 0 else if p = 1 then 1 else if coin then 1 else 0)"

definition random_choice :: "real \<Rightarrow> bool \<Rightarrow> error + int" where
  "random_choice p coin =
     (if p < 0 \<or> 1 < p then Inl ValueError else Inr (drawn_value p coin))"

text \<open>
  \<^verbatim>\<open>np.random.randint(low, high)\<close>: an integer of \<open>[low, high)\<close>, and \<^verbatim>\<open>ValueError\<close>
  (\<^verbatim>\<open>low >= high\<close>) when that interval is empty.
\<close>

definition randint :: "int \<Rightarrow> int \<Rightarrow> nat \<Rightarrow> error + int" where
  "randint low high r =
     (if high \<le> low then Inl ValueError else Inr (low + int r mod (high - low)))"

subsection \<open>Cell\<close>

type_synonym cell = nat

text \<open>\<^verbatim>\<open>Cell.__init__\<close> (line 12): the state of a new cell is one draw.\<close>

definition Cell_init :: "real \<Rightarrow> bool \<Rightarrow> error + int" where
  "Cell_init p coin = random_choice p coin"

subsection \<open>Board\<close>

record Board =
  N :: int
  wraparound :: bool
  blocks_even :: "(int \<times> int) list"
  blocks_odd :: "(int \<times> int) list"
  grid :: "int \<times> int \<Rightarrow> cell"
  state :: "cell \<Rightarrow> int"

text \<open>\<^verbatim>\<open>Cell.flip\<close> (line 16): \<^verbatim>\<open>self.state ^= 1\<close>, on the object \<open>c\<close>.\<close>

definition flip :: "cell \<Rightarrow> Board \<Rightarrow> Board" where
  "flip c b = b\<lparr>state := (state b)(c := state b c XOR 1)\<rparr>"

text \<open>
  The array has \<open>N\<close> rows and columns when \<open>N\<close> is positive and none otherwise
  (\<^verbatim>\<open>range(N)\<close> is then empty). An index \<open>i\<close> of \<open>[-n, n)\<close> is accepted by numpy, a
  negative one counting from the end; any other index raises \<^verbatim>\<open>IndexError\<close>.
\<close>

definition extent :: "Board \<Rightarrow> int" where
  "extent b = max 0 (N b)"

definition np_index :: "int \<Rightarrow> int \<Rightarrow> error + int" where
  "np_index n i =
     (if 0 \<le> i \<and> i < n then Inr i
      else if - n \<le> i \<and> i < 0 then Inr (i + n)
      else Inl IndexError)"

text \<open>The read \<^verbatim>\<open>self.grid[x][y]\<close>.\<close>

definition cell_at :: "Board \<Rightarrow> int \<times> int \<Rightarrow> error + cell" where
  "cell_at b pos =
     (case np_index (extent b) (fst pos) of
        Inl e \<Rightarrow> Inl e
      | Inr x \<Rightarrow>
          (case np_index (extent b) (snd pos) of
             Inl e \<Rightarrow> Inl e
           | Inr y \<Rightarrow> Inr (grid b (x, y))))"

fun read_cells :: "Board \<Rightarrow> (int \<times> int) list \<Rightarrow> error + cell list" where
  "read_cells b [] = Inr []"
| "read_cells b (pos # rest) =
     (case cell_at b pos of
        Inl e \<Rightarrow> Inl e
      | Inr c \<Rightarrow>
          (case read_cells b rest of
             Inl e \<Rightarrow> Inl e
           | Inr cs \<Rightarrow> Inr (c # cs)))"

text \<open>
  The position an accepted index pair denotes, and the write \<^verbatim>\<open>self.grid[x][y] = c\<close>.
  Both are used only on index pairs that were read before, so they cannot raise.
\<close>

definition norm_pos :: "Board \<Rightarrow> int \<times> int \<Rightarrow> int \<times> int" where
  "norm_pos b pos =
     ((if fst pos < 0 then fst pos + extent b else fst pos),
      (if snd pos < 0 then snd pos + extent b else snd pos))"

definition grid_set :: "Board \<Rightarrow> int \<times> int \<Rightarrow> cell \<Rightarrow> Board" where
  "grid_set b pos c = b\<lparr>grid := (grid b)(norm_pos b pos := c)\<rparr>"

text \<open>
  The tuple assignment \<^verbatim>\<open>grid[p], grid[q] = grid[q], grid[p]\<close> of lines 97 and 98: both
  reads first, then the write to \<open>p\<close>, then the write to \<open>q\<close>.
\<close>

definition swap_cells :: "Board \<Rightarrow> int \<times> int \<Rightarrow> int \<times> int \<Rightarrow> Board" where
  "swap_cells b p q =
     (let from_q = grid b (norm_pos b q); from_p = grid b (norm_pos b p)
      in grid_set (grid_set b p from_q) q from_p)"

text \<open>\<^verbatim>\<open>range(start, stop, 2)\<close>, as the loop it is.\<close>

function range2 :: "int \<Rightarrow> int \<Rightarrow> int list" where
  "range2 start stop = (if start < stop then start # range2 (start + 2) stop else [])"
  by pat_completeness auto
termination
  by (relation "measure (\<lambda>(start, stop). nat (stop - start))") auto

declare range2.simps [simp del]

text \<open>\<^verbatim>\<open>Board._create_blocks\<close> (lines 68 to 75).\<close>

definition create_blocks :: "int \<Rightarrow> bool \<Rightarrow> int \<Rightarrow> (int \<times> int) list" where
  "create_blocks n w start =
     [(i, j). i \<leftarrow> range2 start n, j \<leftarrow> range2 start n, w \<or> (i + 1 < n \<and> j + 1 < n)]"

text \<open>
  \<^verbatim>\<open>Board.apply_block_rules\<close> (lines 77 to 100). The guard of line 80 returns first. The
  index list of lines 83 to 86 divides by \<open>N\<close>, the reads of line 87 can raise, and
  nothing is written before all four reads have succeeded.
\<close>

definition block_indices :: "int \<Rightarrow> int \<Rightarrow> int \<Rightarrow> (int \<times> int) list" where
  "block_indices n i j =
     [(i, j), (i, (j + 1) mod n), ((i + 1) mod n, j), ((i + 1) mod n, (j + 1) mod n)]"

definition block_skipped :: "Board \<Rightarrow> int \<Rightarrow> int \<Rightarrow> bool" where
  "block_skipped b i j \<longleftrightarrow> \<not> wraparound b \<and> (i + 1 \<ge> N b \<or> j + 1 \<ge> N b)"

definition apply_block_rules :: "Board \<Rightarrow> int \<Rightarrow> int \<Rightarrow> error + Board" where
  "apply_block_rules b i j =
     (let n = N b in
      if block_skipped b i j then Inr b
      else if n = 0 then Inl ZeroDivisionError
      else
        (case read_cells b (block_indices n i j) of
           Inl e \<Rightarrow> Inl e
         | Inr cells \<Rightarrow>
             (let density = sum_list (map (state b) cells) in
              if density = 2 then Inr b
              else if density \<in> {0, 1, 4} then Inr (fold flip cells b)
              else if density = 3 then
                (let b1 = swap_cells b (i, j) ((i + 1) mod n, (j + 1) mod n);
                     b2 = swap_cells b1 (i, (j + 1) mod n) ((i + 1) mod n, j)
                 in Inr (fold flip cells b2))
              else Inr b)))"

text \<open>\<^verbatim>\<open>Board.step\<close> (lines 102 to 106): the loop over the chosen list.\<close>

fun apply_blocks :: "Board \<Rightarrow> (int \<times> int) list \<Rightarrow> error + Board" where
  "apply_blocks b [] = Inr b"
| "apply_blocks b (origin # rest) =
     (case apply_block_rules b (fst origin) (snd origin) of
        Inl e \<Rightarrow> Inl e
      | Inr b' \<Rightarrow> apply_blocks b' rest)"

definition Board_step :: "Board \<Rightarrow> bool \<Rightarrow> error + Board" where
  "Board_step b even_gen = apply_blocks b (if even_gen then blocks_even b else blocks_odd b)"

text \<open>\<^verbatim>\<open>Board.get_state_array\<close> (line 110): the states, row by row.\<close>

definition get_state_array :: "Board \<Rightarrow> int list list" where
  "get_state_array b =
     [[state b (grid b (x, y)). y \<leftarrow> [0..N b - 1]]. x \<leftarrow> [0..N b - 1]]"

subsection \<open>Initialisation\<close>

text \<open>
  Line 25 creates the cells row by row; the \<open>k\<close>-th one created is the object \<open>k\<close>, so
  position \<open>(i, j)\<close> holds object \<open>i * N + j\<close>. The first failing draw ends the
  construction.
\<close>

primrec new_cells :: "nat \<Rightarrow> real \<Rightarrow> (nat \<Rightarrow> bool) \<Rightarrow> error + (cell \<Rightarrow> int)" where
  "new_cells 0 p coins = Inr (\<lambda>c. 0)"
| "new_cells (Suc k) p coins =
     (case new_cells k p coins of
        Inl e \<Rightarrow> Inl e
      | Inr st \<Rightarrow>
          (case Cell_init p (coins k) of
             Inl e \<Rightarrow> Inl e
           | Inr s \<Rightarrow> Inr (st(k := s))))"

definition set_state :: "int \<times> int \<Rightarrow> int \<Rightarrow> Board \<Rightarrow> Board" where
  "set_state pos v b = b\<lparr>state := (state b)(grid b pos := v)\<rparr>"

text \<open>The positions in the order the two nested \<^verbatim>\<open>for\<close> statements over \<^verbatim>\<open>range(self.N)\<close> visit them.\<close>

definition positions :: "int \<Rightarrow> (int \<times> int) list" where
  "positions n = [(i, j). i \<leftarrow> [0..n - 1], j \<leftarrow> [0..n - 1]]"

text \<open>\<^verbatim>\<open>Board._initialize_odd_columns\<close> and \<^verbatim>\<open>Board._initialize_diagonal_pattern\<close>.\<close>

definition initialize_odd_columns :: "Board \<Rightarrow> Board" where
  "initialize_odd_columns b =
     fold (\<lambda>pos. set_state pos (if snd pos mod 2 = 1 then 1 else 0)) (positions (N b)) b"

definition initialize_diagonal_pattern :: "Board \<Rightarrow> Board" where
  "initialize_diagonal_pattern b =
     fold (\<lambda>pos. set_state pos (if (fst pos + snd pos) mod 2 = 1 then 1 else 0))
       (positions (N b)) b"

text \<open>
  \<^verbatim>\<open>Board._place_pattern\<close> (lines 55 to 66). Lines 57 to 62 compute the origin:
  \<^verbatim>\<open>pattern[0]\<close> raises on an empty pattern, and each \<^verbatim>\<open>randint\<close> raises on an empty
  range. Lines 63 to 66 then write the values, skipping positions outside the grid.
\<close>

definition pattern_origin :: "int \<Rightarrow> int list list \<Rightarrow> draws \<Rightarrow> error + (int \<times> int)" where
  "pattern_origin n pattern rnd =
     (case pattern of
        [] \<Rightarrow> Inl IndexError
      | row0 # _ \<Rightarrow>
          (let height = int (length pattern);
               width = int (length row0);
               max_top = n - height;
               max_left = n - width
           in case randint 0 ((max_top + 1) div 2) (top_draw rnd) of
                Inl e \<Rightarrow> Inl e
              | Inr rt \<Rightarrow>
                  (case randint 0 ((max_left + 1) div 2) (left_draw rnd) of
                     Inl e \<Rightarrow> Inl e
                   | Inr rl \<Rightarrow> Inr (rt * 2 + 1, rl * 2 + 1))))"

fun stamp_row :: "int \<Rightarrow> int \<Rightarrow> int list \<Rightarrow> Board \<Rightarrow> Board" where
  "stamp_row x y [] b = b"
| "stamp_row x y (val # row) b =
     stamp_row x (y + 1) row
       (if 0 \<le> x \<and> x < N b \<and> 0 \<le> y \<and> y < N b then set_state (x, y) val b else b)"

fun stamp :: "int \<Rightarrow> int \<Rightarrow> int list list \<Rightarrow> Board \<Rightarrow> Board" where
  "stamp x y [] b = b"
| "stamp x y (row # rows) b = stamp (x + 1) y rows (stamp_row x y row b)"

definition place_pattern :: "Board \<Rightarrow> int list list \<Rightarrow> draws \<Rightarrow> error + Board" where
  "place_pattern b pattern rnd =
     (case pattern_origin (N b) pattern rnd of
        Inl e \<Rightarrow> Inl e
      | Inr origin \<Rightarrow> Inr (stamp (fst origin) (snd origin) pattern b))"

text \<open>\<^verbatim>\<open>Board.__init__\<close> (lines 20 to 35).\<close>

definition Board_init ::
  "int \<Rightarrow> real \<Rightarrow> bool \<Rightarrow> int list list option \<Rightarrow> string \<Rightarrow> draws \<Rightarrow> error + Board" where
  "Board_init n p w glider init_mode rnd =
     (case new_cells (nat n * nat n) p (cell_draw rnd) of
        Inl e \<Rightarrow> Inl e
      | Inr st \<Rightarrow>
          (let b = \<lparr>N = n, wraparound = w,
                    blocks_even = create_blocks n w 1,
                    blocks_odd = create_blocks n w 0,
                    grid = (\<lambda>pos. nat (fst pos * n + snd pos)),
                    state = st\<rparr>
           in case glider of
                Some pattern \<Rightarrow> place_pattern b pattern rnd
              | None \<Rightarrow>
                  if init_mode = ''Odd Columns Alive'' then Inr (initialize_odd_columns b)
                  else if init_mode = ''Odd Diagonals Alive''
                  then Inr (initialize_diagonal_pattern b)
                  else Inr b))"

subsection \<open>GameManager\<close>

record GameManager =
  gm_N :: int
  gm_p :: real
  max_steps :: int
  gm_wraparound :: bool
  board :: Board
  current_step :: int

text \<open>\<^verbatim>\<open>GameManager.__init__\<close> (lines 115 to 121) and \<^verbatim>\<open>GameManager.step\<close> (123 to 127).\<close>

definition GameManager_init ::
  "int \<Rightarrow> real \<Rightarrow> int \<Rightarrow> bool \<Rightarrow> int list list option \<Rightarrow> string \<Rightarrow> draws
     \<Rightarrow> error + GameManager" where
  "GameManager_init n pr ms w glider init_mode rnd =
     (case Board_init n pr w glider init_mode rnd of
        Inl e \<Rightarrow> Inl e
      | Inr b \<Rightarrow>
          Inr \<lparr>gm_N = n, gm_p = pr, max_steps = ms, gm_wraparound = w, board = b,
               current_step = 0\<rparr>)"

definition GameManager_step :: "GameManager \<Rightarrow> error + GameManager" where
  "GameManager_step gm =
     (let even_gen = (current_step gm mod 2 = 0) in
      case Board_step (board gm) even_gen of
        Inl e \<Rightarrow> Inl e
      | Inr b' \<Rightarrow> Inr (gm\<lparr>board := b', current_step := current_step gm + 1\<rparr>))"

text \<open>
  The pattern \<^verbatim>\<open>Simulator.__init__\<close> keeps for the Glider mode (line 159), and one
  outcome of the draws, used to run the model on concrete boards.
\<close>

definition simulator_glider :: "int list list" where
  "simulator_glider = [[0, 1], [1, 0], [1, 0], [0, 1]]"

definition fixed_draws :: draws where
  "fixed_draws = \<lparr>cell_draw = (\<lambda>k. False), top_draw = 0, left_draw = 0\<rparr>"

subsection \<open>Notions used by the properties\<close>

text \<open>A position of the grid, the state seen at a position, and the density of line 88.\<close>

definition in_grid :: "Board \<Rightarrow> int \<times> int \<Rightarrow> bool" where
  "in_grid b pos \<longleftrightarrow> 0 \<le> fst pos \<and> fst pos < N b \<and> 0 \<le> snd pos \<and> snd pos < N b"

definition state_at :: "Board \<Rightarrow> int \<times> int \<Rightarrow> int" where
  "state_at b pos = state b (grid b pos)"

definition density :: "Board \<Rightarrow> int \<Rightarrow> int \<Rightarrow> int" where
  "density b i j = sum_list (map (state_at b) (block_indices (N b) i j))"

text \<open>
  The grid holds a different cell object at every position, as after line 25, and every
  cell of the grid is dead or alive.
\<close>

definition wf_board :: "Board \<Rightarrow> bool" where
  "wf_board b \<longleftrightarrow> distinct (map (grid b) (positions (N b)))"

definition binary :: "Board \<Rightarrow> bool" where
  "binary b \<longleftrightarrow> list_all (\<lambda>pos. state_at b pos = 0 \<or> state_at b pos = 1) (positions (N b))"

text \<open>The two origin lists are those of lines 23 and 24.\<close>

definition lists_as_built :: "Board \<Rightarrow> bool" where
  "lists_as_built b \<longleftrightarrow>
     blocks_even b = create_blocks (N b) (wraparound b) 1 \<and>
     blocks_odd b = create_blocks (N b) (wraparound b) 0"

text \<open>The states of the four cells of a block, in the order of the list of line 83.\<close>

definition block_states :: "Board \<Rightarrow> int \<Rightarrow> int \<Rightarrow> int list" where
  "block_states b i j = map (state_at b) (block_indices (N b) i j)"

text \<open>
  The board the simulator builds in Glider mode (probability 1, lines 276 to 281), here of
  size 6 with wraparound, and an all-dead board of size 4 without wraparound.
\<close>

definition glider_board :: Board where
  "glider_board = projr (Board_init 6 1 True (Some simulator_glider) ''Glider'' fixed_draws)"

definition dead_board :: Board where
  "dead_board = projr (Board_init 4 0 False None ''Random'' fixed_draws)"

definition dead_manager :: GameManager where
  "dead_manager = projr (GameManager_init 4 0 250 False None ''Random'' fixed_draws)"

text \<open>A board of size 1 with wraparound, whose one cell is alive.\<close>

definition single_board :: Board where
  "single_board = projr (Board_init 1 1 True None ''Random'' fixed_draws)"

text \<open>The upper bounds lines 61 and 62 pass to \<^verbatim>\<open>randint\<close>, for a non-empty pattern.\<close>

definition draw_bounds :: "int \<Rightarrow> int list list \<Rightarrow> int \<times> int" where
  "draw_bounds n pattern =
     ((n - int (length pattern) + 1) div 2, (n - int (length (hd pattern)) + 1) div 2)"

section \<open>Basic facts\<close>

subsection \<open>Positions, cell objects and flips\<close>

lemma xor_one_binary: "x = 0 \<or> x = 1 \<Longrightarrow> x XOR 1 = 1 - (x::int)"
  by auto

lemma positions_mem: "pos \<in> set (positions n) \<longleftrightarrow> 0 \<le> fst pos \<and> fst pos < n \<and> 0 \<le> snd pos \<and> snd pos < n"
  by (cases pos) (force simp: positions_def)

lemma distinct_product: "distinct xs \<Longrightarrow> distinct ys \<Longrightarrow> distinct [(i, j). i \<leftarrow> xs, j \<leftarrow> ys]"
  by (induction xs) (auto simp: distinct_map inj_on_def)

lemma positions_distinct: "distinct (positions n)"
  unfolding positions_def by (rule distinct_product) simp_all

lemma in_grid_positions: "in_grid b pos \<longleftrightarrow> pos \<in> set (positions (N b))"
  by (simp add: in_grid_def positions_mem)

lemma wf_board_inj: "wf_board b \<longleftrightarrow> inj_on (grid b) {pos. in_grid b pos}"
proof -
  have "{pos. in_grid b pos} = set (positions (N b))"
    by (auto simp: in_grid_positions)
  then show ?thesis
    by (simp add: wf_board_def distinct_map positions_distinct)
qed

lemma wf_board_neq:
  "wf_board b \<Longrightarrow> in_grid b p \<Longrightarrow> in_grid b q \<Longrightarrow> p \<noteq> q \<Longrightarrow> grid b p \<noteq> grid b q"
  unfolding wf_board_inj by (meson inj_onD mem_Collect_eq)

lemma fold_flip_fields:
  "N (fold flip cs b) = N b" "wraparound (fold flip cs b) = wraparound b"
  "blocks_even (fold flip cs b) = blocks_even b" "blocks_odd (fold flip cs b) = blocks_odd b"
  "grid (fold flip cs b) = grid b"
  by (induction cs arbitrary: b; simp add: flip_def)+

lemma fold_flip_other: "c \<notin> set cs \<Longrightarrow> state (fold flip cs b) c = state b c"
  by (induction cs arbitrary: b) (auto simp: flip_def)

lemma fold_flip_member:
  "distinct cs \<Longrightarrow> c \<in> set cs \<Longrightarrow> state (fold flip cs b) c = state b c XOR 1"
  by (induction cs arbitrary: b) (auto simp: flip_def fold_flip_other)

subsection \<open>Blocks inside the grid\<close>

lemma block_in_grid:
  assumes "in_grid b (i, j)" "\<not> block_skipped b i j"
  shows "0 < N b" "list_all (in_grid b) (block_indices (N b) i j)"
  using assms by (auto simp: in_grid_def block_indices_def)

lemma cell_at_in_grid: "in_grid b pos \<Longrightarrow> cell_at b pos = Inr (grid b pos)"
  by (cases pos) (auto simp: cell_at_def np_index_def extent_def in_grid_def)

lemma norm_pos_in_grid: "in_grid b pos \<Longrightarrow> norm_pos b pos = pos"
  by (cases pos) (auto simp: norm_pos_def in_grid_def)

lemma read_cells_in_grid:
  "list_all (in_grid b) ps \<Longrightarrow> read_cells b ps = Inr (map (grid b) ps)"
  by (induction ps) (auto simp: cell_at_in_grid)


lemma inj_on_swap:
  "inj_on g P \<Longrightarrow> x \<in> P \<Longrightarrow> y \<in> P \<Longrightarrow> inj_on (g(x := g y, y := g x)) P"
  unfolding inj_on_def by (auto split: if_splits)

lemma norm_pos_grid_update [simp]: "norm_pos (b\<lparr>grid := g\<rparr>) pos = norm_pos b pos"
  by (simp add: norm_pos_def extent_def)

lemma in_grid_grid_update [simp]: "in_grid (b\<lparr>grid := g\<rparr>) pos = in_grid b pos"
  by (simp add: in_grid_def)

lemma swap_cells_in_grid:
  assumes "in_grid b x" "in_grid b y"
  shows "swap_cells b x y = b\<lparr>grid := (grid b)(x := grid b y, y := grid b x)\<rparr>"
  using assms by (simp add: swap_cells_def grid_set_def norm_pos_in_grid Let_def)

lemma wf_board_swap:
  assumes "wf_board b" "in_grid b x" "in_grid b y"
  shows "wf_board (swap_cells b x y)"
  using assms by (simp add: swap_cells_in_grid wf_board_inj inj_on_swap)

lemma density_cells:
  "density b i j = sum_list (map (state b) (map (grid b) (block_indices (N b) i j)))"
  by (simp add: density_def state_at_def [abs_def] comp_def)

lemma apply_block_rules_in_grid:
  assumes "in_grid b (i, j)" "\<not> block_skipped b i j"
  shows "apply_block_rules b i j =
     Inr (let cells = map (grid b) (block_indices (N b) i j); d = density b i j in
          if d = 2 then b
          else if d \<in> {0, 1, 4} then fold flip cells b
          else if d = 3 then
            fold flip cells
              (swap_cells (swap_cells b (i, j) ((i + 1) mod N b, (j + 1) mod N b))
                 (i, (j + 1) mod N b) ((i + 1) mod N b, j))
          else b)"
proof -
  have "N b \<noteq> 0" using block_in_grid(1)[OF assms] by simp
  moreover have "read_cells b (block_indices (N b) i j) = Inr (map (grid b) (block_indices (N b) i j))"
    using block_in_grid(2)[OF assms] by (rule read_cells_in_grid)
  ultimately show ?thesis
    using assms(2) by (simp add: apply_block_rules_def Let_def density_cells)
qed

lemma mod_succ_neq: "0 \<le> i \<Longrightarrow> i < n \<Longrightarrow> 2 \<le> n \<Longrightarrow> (i + 1) mod n \<noteq> (i::int)"
proof (cases "i + 1 < n")
  case True
  assume "0 \<le> i"
  with True show ?thesis by simp
next
  case False
  assume "i < n" "2 \<le> n"
  with False have "i + 1 = n" by simp
  then have "(i + 1) mod n = 0" by simp
  with \<open>i + 1 = n\<close> \<open>2 \<le> n\<close> show ?thesis by simp
qed

lemma block_indices_distinct:
  "in_grid b (i, j) \<Longrightarrow> 2 \<le> N b \<Longrightarrow> distinct (block_indices (N b) i j)"
  using mod_succ_neq[of i "N b"] mod_succ_neq[of j "N b"]
  by (auto simp: block_indices_def in_grid_def)

lemma block_cells_distinct:
  assumes "wf_board b" "in_grid b (i, j)" "\<not> block_skipped b i j" "2 \<le> N b"
  shows "distinct (map (grid b) (block_indices (N b) i j))"
proof -
  have "set (block_indices (N b) i j) \<subseteq> {pos. in_grid b pos}"
    using block_in_grid(2)[OF assms(2,3)] by (auto simp: list_all_iff)
  then have "inj_on (grid b) (set (block_indices (N b) i j))"
    using assms(1) unfolding wf_board_inj by (rule inj_on_subset[rotated])
  then show ?thesis
    using block_indices_distinct[OF assms(2,4)] by (simp add: distinct_map)
qed

lemma density_three_size:
  assumes "in_grid b (i, j)" "density b i j = 3"
  shows "2 \<le> N b"
proof (rule ccontr)
  assume "\<not> 2 \<le> N b"
  with assms(1) have n: "N b = 1" and ij: "i = 0" "j = 0"
    by (auto simp: in_grid_def)
  have "density b i j = 4 * state_at b (0, 0)"
    by (simp add: density_def block_indices_def n ij)
  with assms(2) show False by presburger
qed

lemma block_positions:
  assumes "in_grid b (i, j)" "\<not> block_skipped b i j"
  shows "in_grid b (i, (j + 1) mod N b)" "in_grid b ((i + 1) mod N b, j)"
    "in_grid b ((i + 1) mod N b, (j + 1) mod N b)"
  using block_in_grid(2)[OF assms] by (simp_all add: block_indices_def)

lemma double_swap_grid:
  assumes "in_grid b (i, j)" "\<not> block_skipped b i j" "2 \<le> N b"
  defines "i1 \<equiv> (i + 1) mod N b" and "j1 \<equiv> (j + 1) mod N b"
  shows "swap_cells (swap_cells b (i, j) (i1, j1)) (i, j1) (i1, j) =
         b\<lparr>grid := (grid b)((i, j) := grid b (i1, j1), (i1, j1) := grid b (i, j),
                              (i, j1) := grid b (i1, j), (i1, j) := grid b (i, j1))\<rparr>"
proof -
  have ne: "i1 \<noteq> i" "j1 \<noteq> j"
    using assms(1,3) mod_succ_neq[of i "N b"] mod_succ_neq[of j "N b"]
    by (auto simp: in_grid_def i1_def j1_def)
  have pos: "in_grid b (i, j1)" "in_grid b (i1, j)" "in_grid b (i1, j1)"
    using block_positions[OF assms(1,2)] by (simp_all add: i1_def j1_def)
  show ?thesis
    using ne pos assms(1) by (simp add: swap_cells_in_grid)
qed

lemma density3_result:
  assumes "wf_board b" "in_grid b (i, j)" "\<not> block_skipped b i j" "density b i j = 3"
  defines "i1 \<equiv> (i + 1) mod N b" and "j1 \<equiv> (j + 1) mod N b"
  shows "\<exists>b'. apply_block_rules b i j = Inr b' \<and> N b' = N b \<and>
           grid b' = (grid b)((i, j) := grid b (i1, j1), (i1, j1) := grid b (i, j),
                              (i, j1) := grid b (i1, j), (i1, j) := grid b (i, j1)) \<and>
           (\<forall>pos \<in> set (block_indices (N b) i j). state b' (grid b pos) = state b (grid b pos) XOR 1)"
proof -
  have n2: "2 \<le> N b" using assms(2,4) by (rule density_three_size)
  let ?cells = "map (grid b) (block_indices (N b) i j)"
  let ?b2 = "b\<lparr>grid := (grid b)((i, j) := grid b (i1, j1), (i1, j1) := grid b (i, j),
                              (i, j1) := grid b (i1, j), (i1, j) := grid b (i, j1))\<rparr>"
  have "apply_block_rules b i j = Inr (fold flip ?cells ?b2)"
    using assms(4) double_swap_grid[OF assms(2,3) n2]
    by (simp add: apply_block_rules_in_grid[OF assms(2,3)] i1_def j1_def)
  moreover have "\<forall>pos \<in> set (block_indices (N b) i j).
      state (fold flip ?cells ?b2) (grid b pos) = state b (grid b pos) XOR 1"
    using block_cells_distinct[OF assms(1,2,3) n2] by (simp add: fold_flip_member)
  ultimately show ?thesis by (simp add: fold_flip_fields)
qed

subsection \<open>The two concrete boards\<close>

lemma glider_board_built:
  "Board_init 6 1 True (Some simulator_glider) ''Glider'' fixed_draws = Inr glider_board"
proof -
  have "\<not> isl (Board_init 6 1 True (Some simulator_glider) ''Glider'' fixed_draws)"
    by code_simp
  then show ?thesis by (simp add: glider_board_def)
qed

lemma glider_board_wf: "wf_board glider_board"
  by code_simp

lemma glider_board_binary: "binary glider_board"
  by code_simp

lemma dead_board_built: "Board_init 4 0 False None ''Random'' fixed_draws = Inr dead_board"
proof -
  have "\<not> isl (Board_init 4 0 False None ''Random'' fixed_draws)"
    by code_simp
  then show ?thesis by (simp add: dead_board_def)
qed

lemma dead_board_wf: "wf_board dead_board"
  by code_simp

lemma dead_board_binary: "binary dead_board"
  by code_simp

lemma binary_in_grid: "binary b \<Longrightarrow> in_grid b pos \<Longrightarrow> state_at b pos = 0 \<or> state_at b pos = 1"
  by (simp add: binary_def list_all_iff in_grid_positions)

section \<open>The block rule\<close>

text \<open>
  Claim C2. On a board whose positions hold different cell objects with states 0 or 1,
  take a block inside the grid that the guard of line 80 does not skip and whose
  density is 3. The call returns a board in which the cell objects of the two diagonals
  have changed places (top-left with bottom-right, top-right with bottom-left), each of
  the four objects has the complement of its former state, and the density of the block
  is 1.
\<close>

theorem density_three_swaps_and_flips:
  assumes "wf_board b" and "binary b" and "in_grid b (i, j)" and "\<not> block_skipped b i j"
    and "density b i j = 3"
  shows "\<exists>b'. apply_block_rules b i j = Inr b' \<and>
           grid b' (i, j) = grid b ((i + 1) mod N b, (j + 1) mod N b) \<and>
           grid b' ((i + 1) mod N b, (j + 1) mod N b) = grid b (i, j) \<and>
           grid b' (i, (j + 1) mod N b) = grid b ((i + 1) mod N b, j) \<and>
           grid b' ((i + 1) mod N b, j) = grid b (i, (j + 1) mod N b) \<and>
           (\<forall>pos \<in> set (block_indices (N b) i j).
              state b' (grid b pos) = 1 - state b (grid b pos)) \<and>
           density b' i j = 1"
proof -
  let ?i1 = "(i + 1) mod N b" and ?j1 = "(j + 1) mod N b"
  obtain b' where res: "apply_block_rules b i j = Inr b'" and n: "N b' = N b"
    and g: "grid b' = (grid b)((i, j) := grid b (?i1, ?j1), (?i1, ?j1) := grid b (i, j),
                              (i, ?j1) := grid b (?i1, j), (?i1, j) := grid b (i, ?j1))"
    and st: "\<forall>pos \<in> set (block_indices (N b) i j). state b' (grid b pos) = state b (grid b pos) XOR 1"
    using density3_result[OF assms(1,3,4,5)] by blast
  have n2: "2 \<le> N b" using assms(3,5) by (rule density_three_size)
  have ne: "?i1 \<noteq> i" "?j1 \<noteq> j"
    using assms(3) n2 mod_succ_neq[of i "N b"] mod_succ_neq[of j "N b"]
    by (auto simp: in_grid_def)
  have bin: "\<forall>pos \<in> set (block_indices (N b) i j). state_at b pos = 0 \<or> state_at b pos = 1"
    using block_in_grid(2)[OF assms(3,4)] assms(2) by (simp add: list_all_iff binary_in_grid)
  have compl: "\<forall>pos \<in> set (block_indices (N b) i j). state b' (grid b pos) = 1 - state b (grid b pos)"
    using st bin by (simp add: state_at_def xor_one_binary)
  have "density b' i j = 4 - density b i j"
    using compl ne by (simp add: density_def state_at_def block_indices_def n g)
  with assms(5) have "density b' i j = 1" by simp
  with res g ne compl show ?thesis by simp
qed

theorem density_three_swaps_and_flips_witness:
  "wf_board glider_board \<and> binary glider_board \<and> in_grid glider_board (0, 0) \<and>
   \<not> block_skipped glider_board 0 0 \<and> density glider_board 0 0 = 3 \<and>
   (\<exists>b'. apply_block_rules glider_board 0 0 = Inr b' \<and>
      grid b' (0, 0) = grid glider_board (1, 1) \<and> grid b' (1, 1) = grid glider_board (0, 0) \<and>
      grid b' (0, 1) = grid glider_board (1, 0) \<and> grid b' (1, 0) = grid glider_board (0, 1) \<and>
      density b' 0 0 = 1)"
proof -
  have n: "N glider_board = 6" by code_simp
  have h: "in_grid glider_board (0, 0)" "\<not> block_skipped glider_board 0 0"
    "density glider_board 0 0 = 3"
    by code_simp+
  show ?thesis
    using density_three_swaps_and_flips
      [OF glider_board_wf glider_board_binary h] glider_board_wf glider_board_binary h
    by (auto simp: n)
qed

text \<open>
  Claim C3, as amended. A block read as top-left 1, top-right 1, bottom-left 1,
  bottom-right 0 becomes top-left 1, top-right 0, bottom-left 0, bottom-right 0: the
  one cell alive afterwards is the top-left one, which received the complemented state
  of the bottom-right cell.
\<close>

theorem three_alive_block_result:
  assumes "wf_board b" and "in_grid b (i, j)" and "\<not> block_skipped b i j"
    and "state_at b (i, j) = 1" and "state_at b (i, (j + 1) mod N b) = 1"
    and "state_at b ((i + 1) mod N b, j) = 1"
    and "state_at b ((i + 1) mod N b, (j + 1) mod N b) = 0"
  shows "\<exists>b'. apply_block_rules b i j = Inr b' \<and>
           state_at b' (i, j) = 1 \<and> state_at b' (i, (j + 1) mod N b) = 0 \<and>
           state_at b' ((i + 1) mod N b, j) = 0 \<and>
           state_at b' ((i + 1) mod N b, (j + 1) mod N b) = 0 \<and>
           density b' i j = 1"
proof -
  let ?i1 = "(i + 1) mod N b" and ?j1 = "(j + 1) mod N b"
  have d: "density b i j = 3"
    using assms(4-7) by (simp add: density_def block_indices_def)
  obtain b' where res: "apply_block_rules b i j = Inr b'" and n: "N b' = N b"
    and g: "grid b' = (grid b)((i, j) := grid b (?i1, ?j1), (?i1, ?j1) := grid b (i, j),
                              (i, ?j1) := grid b (?i1, j), (?i1, j) := grid b (i, ?j1))"
    and st: "\<forall>pos \<in> set (block_indices (N b) i j). state b' (grid b pos) = state b (grid b pos) XOR 1"
    using density3_result[OF assms(1,2,3) d] by blast
  have n2: "2 \<le> N b" using assms(2) d by (rule density_three_size)
  have ne: "?i1 \<noteq> i" "?j1 \<noteq> j"
    using assms(2) n2 mod_succ_neq[of i "N b"] mod_succ_neq[of j "N b"]
    by (auto simp: in_grid_def)
  have vals: "state_at b' (i, j) = 1" "state_at b' (i, ?j1) = 0"
     "state_at b' (?i1, j) = 0" "state_at b' (?i1, ?j1) = 0"
    using st ne assms(4-7) by (simp_all add: state_at_def g block_indices_def)
  then have "density b' i j = 1"
    by (simp add: density_def block_indices_def n)
  with res vals show ?thesis by simp
qed

theorem three_alive_block_result_witness:
  "wf_board glider_board \<and> in_grid glider_board (0, 0) \<and> \<not> block_skipped glider_board 0 0 \<and>
   block_states glider_board 0 0 = [1, 1, 1, 0] \<and>
   (\<exists>b'. apply_block_rules glider_board 0 0 = Inr b' \<and> block_states b' 0 0 = [1, 0, 0, 0])"
proof -
  have n: "N glider_board = 6" by code_simp
  have h: "in_grid glider_board (0, 0)" "\<not> block_skipped glider_board 0 0"
    by code_simp+
  have s: "state_at glider_board (0, 0) = 1" "state_at glider_board (0, 1) = 1"
    "state_at glider_board (1, 0) = 1" "state_at glider_board (1, 1) = 0"
    by code_simp+
  obtain b' where r: "apply_block_rules glider_board 0 0 = Inr b'"
    "state_at b' (0, 0) = 1" "state_at b' (0, 1) = 0" "state_at b' (1, 0) = 0"
    "state_at b' (1, 1) = 0"
    using three_alive_block_result [OF glider_board_wf h] s by (auto simp: n)
  have "N b' = 6"
    using density3_result [OF glider_board_wf h] r(1) s
    by (auto simp: n density_def block_indices_def)
  with r s show ?thesis
    using glider_board_wf h by (simp add: block_states_def block_indices_def n)
qed

text \<open>
  The claim as the specification words it fails on the glider board: the block at the
  origin is read as 1, 1, 1, 0, and the rule leaves 1, 0, 0, 0 there, not four dead cells.
\<close>

theorem three_alive_block_counterexample:
  "block_states glider_board 0 0 = [1, 1, 1, 0] \<and>
   block_states (projr (apply_block_rules glider_board 0 0)) 0 0 = [1, 0, 0, 0] \<and>
   block_states (projr (apply_block_rules glider_board 0 0)) 0 0 \<noteq> [0, 0, 0, 0]"
  by code_simp

text \<open>
  Claim C4. On such a board of size at least 2, a block of density 0, 1 or 4 keeps every
  cell object where it is and gives each of its four positions the complement of its
  former state; a block of density 2 leaves the whole board as it was.
\<close>

theorem flips_in_place_or_stable:
  assumes "wf_board b" and "binary b" and "in_grid b (i, j)" and "\<not> block_skipped b i j"
    and "2 \<le> N b"
  shows "(density b i j \<in> {0, 1, 4} \<longrightarrow>
            (\<exists>b'. apply_block_rules b i j = Inr b' \<and> grid b' = grid b \<and>
               (\<forall>pos \<in> set (block_indices (N b) i j). state_at b' pos = 1 - state_at b pos))) \<and>
         (density b i j = 2 \<longrightarrow> apply_block_rules b i j = Inr b)"
proof (intro conjI impI)
  assume d: "density b i j \<in> {0, 1, 4}"
  let ?cells = "map (grid b) (block_indices (N b) i j)"
  have res: "apply_block_rules b i j = Inr (fold flip ?cells b)"
    using d by (auto simp: apply_block_rules_in_grid[OF assms(3,4)] Let_def)
  have bin: "\<forall>pos \<in> set (block_indices (N b) i j). state_at b pos = 0 \<or> state_at b pos = 1"
    using block_in_grid(2)[OF assms(3,4)] assms(2) by (simp add: list_all_iff binary_in_grid)
  have "\<forall>pos \<in> set (block_indices (N b) i j).
          state (fold flip ?cells b) (grid b pos) = state b (grid b pos) XOR 1"
    using block_cells_distinct[OF assms(1,3,4,5)] by (simp add: fold_flip_member)
  then have "\<forall>pos \<in> set (block_indices (N b) i j).
          state_at (fold flip ?cells b) pos = 1 - state_at b pos"
    using bin by (simp add: state_at_def fold_flip_fields xor_one_binary)
  with res show "\<exists>b'. apply_block_rules b i j = Inr b' \<and> grid b' = grid b \<and>
      (\<forall>pos \<in> set (block_indices (N b) i j). state_at b' pos = 1 - state_at b pos)"
    by (simp add: fold_flip_fields)
next
  assume "density b i j = 2"
  then show "apply_block_rules b i j = Inr b"
    by (simp add: apply_block_rules_in_grid[OF assms(3,4)])
qed

theorem flips_in_place_or_stable_witness:
  "wf_board glider_board \<and> binary glider_board \<and> 2 \<le> N glider_board \<and>
   in_grid glider_board (0, 2) \<and> \<not> block_skipped glider_board 0 2 \<and>
   density glider_board 0 2 = 4 \<and>
   (\<exists>b'. apply_block_rules glider_board 0 2 = Inr b' \<and> grid b' = grid glider_board \<and>
      block_states b' 0 2 = [0, 0, 0, 0]) \<and>
   in_grid glider_board (1, 1) \<and> \<not> block_skipped glider_board 1 1 \<and>
   density glider_board 1 1 = 2 \<and> apply_block_rules glider_board 1 1 = Inr glider_board"
proof -
  have n: "N glider_board = 6" by code_simp
  have h: "in_grid glider_board (0, 2)" "\<not> block_skipped glider_board 0 2"
    "density glider_board 0 2 = 4"
    by code_simp+
  have k: "in_grid glider_board (1, 1)" "\<not> block_skipped glider_board 1 1"
    "density glider_board 1 1 = 2"
    by code_simp+
  have s: "block_states glider_board 0 2 = [1, 1, 1, 1]" by code_simp
  have n2: "2 \<le> N glider_board" by (simp add: n)
  have stable: "apply_block_rules glider_board 1 1 = Inr glider_board"
    using flips_in_place_or_stable [OF glider_board_wf glider_board_binary k(1,2) n2] k(3)
    by simp
  obtain b' where r: "apply_block_rules glider_board 0 2 = Inr b'" "grid b' = grid glider_board"
    "\<forall>pos \<in> set (block_indices 6 0 2). state_at b' pos = 1 - state_at glider_board pos"
    using flips_in_place_or_stable [OF glider_board_wf glider_board_binary h(1,2) n2] h(3)
    by (auto simp: n)
  have "N b' = 6"
    using r(1) h(3) by (auto simp: apply_block_rules_in_grid [OF h(1,2)] fold_flip_fields n)
  with r s have "block_states b' 0 2 = [0, 0, 0, 0]"
    by (simp add: block_states_def block_indices_def n)
  with r stable show ?thesis
    using glider_board_wf glider_board_binary h k n2 by blast
qed

subsection \<open>The origin lists\<close>

lemma range2_unfold_lt: "start < stop \<Longrightarrow> range2 start stop = start # range2 (start + 2) stop"
  by (subst range2.simps) simp

lemma range2_unfold_ge: "\<not> start < stop \<Longrightarrow> range2 start stop = []"
  by (subst range2.simps) simp

lemma range2_mem: "i \<in> set (range2 s n) \<longleftrightarrow> s \<le> i \<and> i < n \<and> even (i - s)"
proof (induction s n rule: range2.induct)
  case (1 start stop)
  show ?case
  proof (cases "start < stop")
    case True
    have "i \<in> set (range2 start stop) \<longleftrightarrow> i = start \<or> i \<in> set (range2 (start + 2) stop)"
      using True by (auto simp: range2_unfold_lt)
    also have "\<dots> \<longleftrightarrow> i = start \<or> (start + 2 \<le> i \<and> i < stop \<and> even (i - (start + 2)))"
      using 1 True by simp
    also have "\<dots> \<longleftrightarrow> start \<le> i \<and> i < stop \<and> even (i - start)"
      using True by presburger
    finally show ?thesis .
  next
    case False
    then show ?thesis by (simp add: range2_unfold_ge)
  qed
qed

lemma range2_distinct: "distinct (range2 s n)"
proof (induction s n rule: range2.induct)
  case (1 start stop)
  show ?case
  proof (cases "start < stop")
    case True
    then show ?thesis using 1 by (simp add: range2_unfold_lt range2_mem)
  next
    case False
    then show ?thesis by (simp add: range2_unfold_ge)
  qed
qed

lemma create_blocks_mem:
  "(i, j) \<in> set (create_blocks n w s) \<longleftrightarrow>
     i \<in> set (range2 s n) \<and> j \<in> set (range2 s n) \<and> (w \<or> (i + 1 < n \<and> j + 1 < n))"
  by (auto simp: create_blocks_def)

lemma distinct_filtered_pairs:
  "distinct xs \<Longrightarrow> distinct ys \<Longrightarrow>
   distinct (concat (map (\<lambda>i. concat (map (\<lambda>j. if P i j then [(i, j)] else []) ys)) xs))"
proof (induction xs)
  case Nil
  then show ?case by simp
next
  case (Cons x xs)
  have "distinct (concat (map (\<lambda>j. if P x j then [(x, j)] else []) ys))"
    using Cons.prems(2) by (induction ys) auto
  then show ?case using Cons by auto
qed

lemma create_blocks_distinct: "distinct (create_blocks n w s)"
  unfolding create_blocks_def by (rule distinct_filtered_pairs) (rule range2_distinct)+

lemma create_blocks_in_grid:
  assumes "(i, j) \<in> set (create_blocks (N b) w s)" "0 \<le> s"
  shows "in_grid b (i, j)"
  using assms by (simp add: create_blocks_mem range2_mem in_grid_def)

section \<open>The origin lists and the step\<close>

text \<open>
  Claim C6. On a board without wraparound whose two lists are those of lines 23 and 24,
  every origin of either list has its whole block inside the grid, so the guard of line
  80 is false for it.
\<close>

theorem origins_without_wraparound_inside:
  assumes "lists_as_built b" and "\<not> wraparound b"
    and "(i, j) \<in> set (blocks_even b) \<union> set (blocks_odd b)"
  shows "i + 1 < N b \<and> j + 1 < N b \<and> \<not> block_skipped b i j"
  using assms by (auto simp: lists_as_built_def create_blocks_mem block_skipped_def)

theorem origins_without_wraparound_inside_witness:
  "lists_as_built dead_board \<and> \<not> wraparound dead_board \<and>
   (1, 1) \<in> set (blocks_even dead_board) \<union> set (blocks_odd dead_board) \<and>
   1 + 1 < N dead_board \<and> \<not> block_skipped dead_board 1 1"
proof -
  have h: "lists_as_built dead_board" "\<not> wraparound dead_board"
    "(1, 1) \<in> set (blocks_even dead_board) \<union> set (blocks_odd dead_board)"
    by code_simp+
  show ?thesis
    using origins_without_wraparound_inside [OF h] h by simp
qed

lemma mod_succ_cases: "0 \<le> i \<Longrightarrow> i < n \<Longrightarrow> (i + 1) mod n = (if i + 1 < n then i + 1 else (0::int))"
proof (cases "i + 1 < n")
  case True
  assume "0 \<le> i"
  with True show ?thesis by simp
next
  case False
  assume "i < n"
  with False have "i + 1 = n" by simp
  then have "(i + 1) mod n = 0" by simp
  with False show ?thesis by simp
qed

lemma row_origin_unique:
  assumes "even n" "0 \<le> x" "x < n" "s = 0 \<or> s = 1"
  shows "\<exists>!i. i \<in> set (range2 s n) \<and> (x = i \<or> x = (i + 1) mod n)"
proof -
  have iff: "i \<in> set (range2 s n) \<and> (x = i \<or> x = (i + 1) mod n) \<longleftrightarrow>
      s \<le> i \<and> i < n \<and> even (i - s) \<and> (x = i \<or> x = (if i + 1 < n then i + 1 else 0))" for i
    using assms(4) by (auto simp: range2_mem mod_succ_cases)
  let ?i0 = "if even (x - s) then x else if x = 0 then n - 1 else x - 1"
  have "s \<le> ?i0 \<and> ?i0 < n \<and> even (?i0 - s) \<and> (x = ?i0 \<or> x = (if ?i0 + 1 < n then ?i0 + 1 else 0))"
    using assms by (auto; presburger)
  moreover have "i = ?i0"
    if "s \<le> i \<and> i < n \<and> even (i - s) \<and> (x = i \<or> x = (if i + 1 < n then i + 1 else 0))" for i
    using that assms by (auto split: if_splits; presburger)
  ultimately show ?thesis
    unfolding iff by (rule_tac a = ?i0 in ex1I) blast+
qed

lemma block_indices_mem:
  "pos \<in> set (block_indices n i j) \<longleftrightarrow>
     (fst pos = i \<or> fst pos = (i + 1) mod n) \<and> (snd pos = j \<or> snd pos = (j + 1) mod n)"
  by (cases pos) (auto simp: block_indices_def)

lemma tiling_origin_unique:
  assumes "even n" "0 \<le> fst pos" "fst pos < n" "0 \<le> snd pos" "snd pos < n" "s = 0 \<or> s = 1"
  shows "\<exists>!origin. origin \<in> set (create_blocks n True s) \<and>
           pos \<in> set (block_indices n (fst origin) (snd origin))"
proof -
  obtain i0 where i0: "i0 \<in> set (range2 s n)" "fst pos = i0 \<or> fst pos = (i0 + 1) mod n"
    and ui: "\<And>i. i \<in> set (range2 s n) \<and> (fst pos = i \<or> fst pos = (i + 1) mod n) \<Longrightarrow> i = i0"
    using row_origin_unique[OF assms(1,2,3,6)] by blast
  obtain j0 where j0: "j0 \<in> set (range2 s n)" "snd pos = j0 \<or> snd pos = (j0 + 1) mod n"
    and uj: "\<And>j. j \<in> set (range2 s n) \<and> (snd pos = j \<or> snd pos = (j + 1) mod n) \<Longrightarrow> j = j0"
    using row_origin_unique[OF assms(1,4,5,6)] by blast
  show ?thesis
  proof (rule ex1I [of _ "(i0, j0)"])
    show "(i0, j0) \<in> set (create_blocks n True s) \<and>
          pos \<in> set (block_indices n (fst (i0, j0)) (snd (i0, j0)))"
      using i0 j0 by (simp add: create_blocks_mem block_indices_mem)
  next
    fix origin
    assume a: "origin \<in> set (create_blocks n True s) \<and>
          pos \<in> set (block_indices n (fst origin) (snd origin))"
    obtain i j where o: "origin = (i, j)" by (cases origin)
    from a have "i = i0" "j = j0"
      using ui[of i] uj[of j] by (simp_all add: o create_blocks_mem block_indices_mem)
    then show "origin = (i0, j0)" by (simp add: o)
  qed
qed

text \<open>
  Claim C5. On a board with wraparound and an even size whose two lists are those of
  lines 23 and 24, each list names every origin once, and every position of the grid
  lies in the block of exactly one origin of the list: the blocks of a list are pairwise
  disjoint and cover the grid.
\<close>

theorem each_tiling_partitions_grid:
  assumes "lists_as_built b" and "wraparound b" and "even (N b)" and "in_grid b pos"
  shows "distinct (blocks_even b) \<and> distinct (blocks_odd b) \<and>
         (\<exists>!origin. origin \<in> set (blocks_even b) \<and>
            pos \<in> set (block_indices (N b) (fst origin) (snd origin))) \<and>
         (\<exists>!origin. origin \<in> set (blocks_odd b) \<and>
            pos \<in> set (block_indices (N b) (fst origin) (snd origin)))"
proof -
  have lists: "blocks_even b = create_blocks (N b) True 1" "blocks_odd b = create_blocks (N b) True 0"
    using assms(1,2) by (simp_all add: lists_as_built_def)
  have pos: "0 \<le> fst pos" "fst pos < N b" "0 \<le> snd pos" "snd pos < N b"
    using assms(4) by (simp_all add: in_grid_def)
  show ?thesis
    unfolding lists
    using tiling_origin_unique [OF assms(3) pos, of 1] tiling_origin_unique [OF assms(3) pos, of 0]
    by (simp add: create_blocks_distinct)
qed

theorem each_tiling_partitions_grid_witness:
  "lists_as_built glider_board \<and> wraparound glider_board \<and> even (N glider_board) \<and>
   in_grid glider_board (0, 0) \<and>
   (\<exists>!origin. origin \<in> set (blocks_even glider_board) \<and>
      (0, 0) \<in> set (block_indices (N glider_board) (fst origin) (snd origin))) \<and>
   (\<exists>!origin. origin \<in> set (blocks_odd glider_board) \<and>
      (0, 0) \<in> set (block_indices (N glider_board) (fst origin) (snd origin))) \<and>
   (5, 5) \<in> set (blocks_even glider_board) \<and> (0, 0) \<in> set (block_indices 6 5 5) \<and>
   (0, 0) \<in> set (blocks_odd glider_board)"
proof -
  have h: "lists_as_built glider_board" "wraparound glider_board" "even (N glider_board)"
    "in_grid glider_board (0, 0)"
    by code_simp+
  have c: "(5, 5) \<in> set (blocks_even glider_board)" "(0, 0) \<in> set (block_indices 6 5 5)"
    "(0, 0) \<in> set (blocks_odd glider_board)"
    by code_simp+
  show ?thesis
    using each_tiling_partitions_grid [OF h] h c by simp
qed

text \<open>
  Claim C1, as amended. On an engine whose board has the two lists of lines 23 and 24,
  a call of step with an even counter applies the rule, in list order, to the origins
  built with start 1, and a call with an odd counter to the origins built with start 0;
  the counter then grows by one. The origins built with a start value are the pairs of
  rows and columns reached from it in steps of 2 inside the grid (and, without
  wraparound, those whose block ends inside the grid): from (1, 1) for an even counter
  and from (0, 0) for an odd one.
\<close>

theorem step_uses_list_of_counter_parity:
  assumes "lists_as_built (board gm)"
  shows "GameManager_step gm =
           (case apply_blocks (board gm)
                   (create_blocks (N (board gm)) (wraparound (board gm))
                      (if current_step gm mod 2 = 0 then 1 else 0)) of
              Inl e \<Rightarrow> Inl e
            | Inr b' \<Rightarrow> Inr (gm\<lparr>board := b', current_step := current_step gm + 1\<rparr>)) \<and>
         ((i, j) \<in> set (create_blocks n w start) \<longleftrightarrow>
            start \<le> i \<and> i < n \<and> start \<le> j \<and> j < n \<and> even (i - start) \<and> even (j - start) \<and>
            (w \<or> (i + 1 < n \<and> j + 1 < n)))"
  using assms
  by (auto simp: GameManager_step_def Board_step_def lists_as_built_def Let_def
      create_blocks_mem range2_mem)

theorem step_uses_list_of_counter_parity_witness:
  "lists_as_built (board dead_manager) \<and> current_step dead_manager mod 2 = 0 \<and>
   GameManager_step dead_manager =
     (case apply_blocks (board dead_manager) [(1, 1)] of
        Inl e \<Rightarrow> Inl e
      | Inr b' \<Rightarrow>
          Inr (dead_manager\<lparr>board := b', current_step := current_step dead_manager + 1\<rparr>))"
proof -
  have h: "lists_as_built (board dead_manager)" by code_simp
  have c: "current_step dead_manager = 0" "N (board dead_manager) = 4"
    "\<not> wraparound (board dead_manager)" "create_blocks 4 False 1 = [(1, 1)]"
    by code_simp+
  show ?thesis
    using step_uses_list_of_counter_parity [OF h] h c by simp
qed

text \<open>
  The claim as the specification words it fails on the all-dead board of size 4 without
  wraparound: the first step, taken with counter 0, flips the one block at (1, 1),
  whereas the rule applied to the origins built from (0, 0) flips the whole grid.
\<close>

theorem step_even_counter_counterexample:
  "current_step dead_manager mod 2 = 0 \<and>
   get_state_array (board (projr (GameManager_step dead_manager))) =
     [[0, 0, 0, 0], [0, 1, 1, 0], [0, 1, 1, 0], [0, 0, 0, 0]] \<and>
   get_state_array (projr (apply_blocks (board dead_manager) (create_blocks 4 False 0))) =
     [[1, 1, 1, 1], [1, 1, 1, 1], [1, 1, 1, 1], [1, 1, 1, 1]]"
  by code_simp

subsection \<open>What a call of the rule leaves alone\<close>

lemma swap_cells_fields [simp]:
  "N (swap_cells b x y) = N b" "wraparound (swap_cells b x y) = wraparound b"
  "blocks_even (swap_cells b x y) = blocks_even b" "blocks_odd (swap_cells b x y) = blocks_odd b"
  "state (swap_cells b x y) = state b"
  by (simp_all add: swap_cells_def grid_set_def Let_def)

lemma in_grid_swap_cells [simp]: "in_grid (swap_cells b x y) pos = in_grid b pos"
  by (simp add: in_grid_def)

lemma swap_cells_other:
  "in_grid b x \<Longrightarrow> in_grid b y \<Longrightarrow> pos \<noteq> x \<Longrightarrow> pos \<noteq> y \<Longrightarrow> grid (swap_cells b x y) pos = grid b pos"
  by (simp add: swap_cells_in_grid)

lemma wf_board_fold_flip [simp]: "wf_board (fold flip cs b) = wf_board b"
  by (simp add: wf_board_def fold_flip_fields)

lemma apply_block_rules_skipped: "block_skipped b i j \<Longrightarrow> apply_block_rules b i j = Inr b"
  by (simp add: apply_block_rules_def)

lemma apply_block_rules_frame:
  assumes "wf_board b" "in_grid b (i, j)"
  shows "\<exists>b'. apply_block_rules b i j = Inr b' \<and> N b' = N b \<and> wraparound b' = wraparound b \<and>
           blocks_even b' = blocks_even b \<and> blocks_odd b' = blocks_odd b \<and> wf_board b' \<and>
           (\<forall>pos. in_grid b pos \<and> (block_skipped b i j \<or> pos \<notin> set (block_indices (N b) i j)) \<longrightarrow>
              grid b' pos = grid b pos \<and> state_at b' pos = state_at b pos)"
proof (cases "block_skipped b i j")
  case True
  then show ?thesis using assms(1) by (simp add: apply_block_rules_skipped)
next
  case False
  let ?i1 = "(i + 1) mod N b" and ?j1 = "(j + 1) mod N b"
  let ?ps = "block_indices (N b) i j"
  let ?cells = "map (grid b) ?ps"
  let ?b2 = "swap_cells (swap_cells b (i, j) (?i1, ?j1)) (i, ?j1) (?i1, j)"
  have pos: "in_grid b (i, ?j1)" "in_grid b (?i1, j)" "in_grid b (?i1, ?j1)"
    using block_positions [OF assms(2) False] .
  have ps: "\<forall>q \<in> set ?ps. in_grid b q"
    using block_in_grid(2) [OF assms(2) False] by (simp add: list_all_iff)
  have outside: "grid b pos \<notin> set ?cells" if "in_grid b pos" "pos \<notin> set ?ps" for pos
  proof
    assume "grid b pos \<in> set ?cells"
    then obtain q where q: "q \<in> set ?ps" "grid b pos = grid b q" by auto
    with ps that(1) assms(1) have "pos = q"
      using wf_board_neq [of b pos q] by blast
    with q(1) that(2) show False by simp
  qed
  have wf2: "wf_board ?b2"
    using assms pos by (simp add: wf_board_swap)
  have g2: "grid ?b2 pos = grid b pos" if "pos \<notin> set ?ps" for pos
    using that assms(2) pos by (simp add: swap_cells_other block_indices_def)
  have keep: "in_grid b pos \<and> pos \<notin> set ?ps \<longrightarrow>
      grid (fold flip ?cells b) pos = grid b pos \<and>
      state_at (fold flip ?cells b) pos = state_at b pos \<and>
      grid (fold flip ?cells ?b2) pos = grid b pos \<and>
      state_at (fold flip ?cells ?b2) pos = state_at b pos" for pos
    using outside [of pos] g2 [of pos]
    by (simp add: state_at_def fold_flip_fields fold_flip_other)
  have "apply_block_rules b i j = Inr b \<or>
        apply_block_rules b i j = Inr (fold flip ?cells b) \<or>
        apply_block_rules b i j = Inr (fold flip ?cells ?b2)"
    by (simp add: apply_block_rules_in_grid [OF assms(2) False] Let_def)
  then show ?thesis
  proof (elim disjE)
    assume "apply_block_rules b i j = Inr b"
    then show ?thesis using assms(1) by simp
  next
    assume "apply_block_rules b i j = Inr (fold flip ?cells b)"
    then show ?thesis using assms(1) keep False by (simp add: fold_flip_fields)
  next
    assume "apply_block_rules b i j = Inr (fold flip ?cells ?b2)"
    then show ?thesis using wf2 keep False by (simp add: fold_flip_fields)
  qed
qed

lemma apply_blocks_frame:
  assumes "wf_board b" "\<forall>origin \<in> set bs. in_grid b origin"
  shows "\<exists>b'. apply_blocks b bs = Inr b' \<and> N b' = N b \<and> wraparound b' = wraparound b \<and>
           blocks_even b' = blocks_even b \<and> blocks_odd b' = blocks_odd b \<and> wf_board b' \<and>
           (\<forall>pos. in_grid b pos \<and>
                (\<forall>origin \<in> set bs. block_skipped b (fst origin) (snd origin) \<or>
                   pos \<notin> set (block_indices (N b) (fst origin) (snd origin))) \<longrightarrow>
              grid b' pos = grid b pos \<and> state_at b' pos = state_at b pos)"
  using assms
proof (induction bs arbitrary: b)
  case Nil
  then show ?case by simp
next
  case (Cons origin bs)
  have og: "in_grid b (fst origin, snd origin)" using Cons.prems(2) by simp
  obtain b1 where b1: "apply_block_rules b (fst origin) (snd origin) = Inr b1"
    "N b1 = N b" "wraparound b1 = wraparound b" "blocks_even b1 = blocks_even b"
    "blocks_odd b1 = blocks_odd b" "wf_board b1"
    and f1: "\<And>pos. in_grid b pos \<and> (block_skipped b (fst origin) (snd origin) \<or>
        pos \<notin> set (block_indices (N b) (fst origin) (snd origin))) \<Longrightarrow>
        grid b1 pos = grid b pos \<and> state_at b1 pos = state_at b pos"
    using apply_block_rules_frame [OF Cons.prems(1) og] by blast
  have same: "in_grid b1 = in_grid b" "block_skipped b1 = block_skipped b"
    by (simp_all add: fun_eq_iff in_grid_def block_skipped_def b1)
  have "\<forall>origin \<in> set bs. in_grid b1 origin"
    using Cons.prems(2) by (simp add: same)
  from Cons.IH [OF b1(6) this]
  obtain b' where b': "apply_blocks b1 bs = Inr b'"
    "N b' = N b1" "wraparound b' = wraparound b1" "blocks_even b' = blocks_even b1"
    "blocks_odd b' = blocks_odd b1" "wf_board b'"
    and f': "\<And>pos. in_grid b1 pos \<and>
        (\<forall>origin \<in> set bs. block_skipped b1 (fst origin) (snd origin) \<or>
           pos \<notin> set (block_indices (N b1) (fst origin) (snd origin))) \<Longrightarrow>
        grid b' pos = grid b1 pos \<and> state_at b' pos = state_at b1 pos"
    by blast
  have "grid b' pos = grid b pos \<and> state_at b' pos = state_at b pos"
    if "in_grid b pos" "\<forall>o' \<in> set (origin # bs). block_skipped b (fst o') (snd o') \<or>
           pos \<notin> set (block_indices (N b) (fst o') (snd o'))" for pos
    using f1 [of pos] f' [of pos] that by (simp add: same b1)
  then show ?case
    using b1 b' by simp
qed

text \<open>
  Claim C10. On a board of even size without wraparound, with different cell objects at
  its positions and the two lists of lines 23 and 24, the step over the list built with
  start 1 returns, and every position of the first and last row and of the first and
  last column holds the same cell object with the same state as before.
\<close>

theorem start_one_step_keeps_border:
  assumes "wf_board b" and "lists_as_built b" and "\<not> wraparound b" and "even (N b)"
  shows "\<exists>b'. Board_step b True = Inr b' \<and>
           (\<forall>pos. in_grid b pos \<and>
                (fst pos = 0 \<or> fst pos = N b - 1 \<or> snd pos = 0 \<or> snd pos = N b - 1) \<longrightarrow>
              grid b' pos = grid b pos \<and> state_at b' pos = state_at b pos)"
proof -
  let ?bs = "create_blocks (N b) False 1"
  have list: "blocks_even b = ?bs"
    using assms(2,3) by (simp add: lists_as_built_def)
  have inside: "\<forall>origin \<in> set ?bs. in_grid b origin"
    using create_blocks_in_grid [of _ _ b False 1] by auto
  obtain b' where b': "apply_blocks b ?bs = Inr b'"
    and frame: "\<And>pos. in_grid b pos \<and>
        (\<forall>origin \<in> set ?bs. block_skipped b (fst origin) (snd origin) \<or>
           pos \<notin> set (block_indices (N b) (fst origin) (snd origin))) \<Longrightarrow>
        grid b' pos = grid b pos \<and> state_at b' pos = state_at b pos"
    using apply_blocks_frame [OF assms(1) inside] by blast
  have away: "pos \<notin> set (block_indices (N b) (fst origin) (snd origin))"
    if "origin \<in> set ?bs"
      and "fst pos = 0 \<or> fst pos = N b - 1 \<or> snd pos = 0 \<or> snd pos = N b - 1"
    for pos origin
  proof -
    obtain i j where o: "origin = (i, j)" by (cases origin)
    from that(1) have ij: "1 \<le> i" "i + 1 < N b" "odd i" "1 \<le> j" "j + 1 < N b" "odd j"
      by (simp_all add: o create_blocks_mem range2_mem)
    have m: "(i + 1) mod N b = i + 1" "(j + 1) mod N b = j + 1"
      using ij by simp_all
    show ?thesis
      using that(2) ij assms(4) unfolding o block_indices_mem fst_conv snd_conv m
      by presburger
  qed
  have "grid b' pos = grid b pos \<and> state_at b' pos = state_at b pos"
    if "in_grid b pos" "fst pos = 0 \<or> fst pos = N b - 1 \<or> snd pos = 0 \<or> snd pos = N b - 1"
    for pos
    using frame [of pos] away [of _ pos] that by blast
  then show ?thesis
    using b' by (simp add: Board_step_def list)
qed

theorem start_one_step_keeps_border_witness:
  "wf_board dead_board \<and> lists_as_built dead_board \<and> \<not> wraparound dead_board \<and>
   even (N dead_board) \<and> in_grid dead_board (0, 2) \<and>
   (\<exists>b'. Board_step dead_board True = Inr b' \<and> grid b' (0, 2) = grid dead_board (0, 2) \<and>
      state_at b' (0, 2) = 0) \<and>
   get_state_array (projr (Board_step dead_board True)) =
     [[0, 0, 0, 0], [0, 1, 1, 0], [0, 1, 1, 0], [0, 0, 0, 0]]"
proof -
  have h: "lists_as_built dead_board" "\<not> wraparound dead_board" "even (N dead_board)"
    by code_simp+
  have c: "in_grid dead_board (0, 2)" "state_at dead_board (0, 2) = 0"
    "get_state_array (projr (Board_step dead_board True)) =
       [[0, 0, 0, 0], [0, 1, 1, 0], [0, 1, 1, 0], [0, 0, 0, 0]]"
    by code_simp+
  show ?thesis
    using start_one_step_keeps_border [OF dead_board_wf h] dead_board_wf h c by fastforce
qed

subsection \<open>Construction\<close>

lemma new_cells_ok:
  assumes "0 \<le> pr" "pr \<le> 1"
  shows "new_cells k pr coins = Inr (\<lambda>c. if c < k then drawn_value pr (coins c) else 0)"
proof (induction k)
  case 0
  then show ?case by simp
next
  case (Suc k)
  have "(\<lambda>c. if c < k then drawn_value pr (coins c) else 0)(k := drawn_value pr (coins k)) =
        (\<lambda>c. if c < Suc k then drawn_value pr (coins c) else 0)"
    by (auto simp: fun_eq_iff)
  with Suc assms show ?case
    by (simp add: Cell_init_def random_choice_def)
qed

lemma new_cells_bad:
  assumes "pr < 0 \<or> 1 < pr" "0 < k"
  shows "new_cells k pr coins = Inl ValueError"
  using assms(2)
proof (induction k)
  case 0
  then show ?case by simp
next
  case (Suc k)
  show ?case
  proof (cases "k = 0")
    case True
    with assms(1) show ?thesis by (auto simp: Cell_init_def random_choice_def)
  next
    case False
    with Suc show ?thesis by simp
  qed
qed

lemma set_state_fields [simp]:
  "N (set_state pos v b) = N b" "wraparound (set_state pos v b) = wraparound b"
  "blocks_even (set_state pos v b) = blocks_even b" "blocks_odd (set_state pos v b) = blocks_odd b"
  "grid (set_state pos v b) = grid b"
  by (simp_all add: set_state_def)

lemma fold_set_state_fields:
  "N (fold (\<lambda>pos. set_state pos (f pos)) ps b) = N b"
  "wraparound (fold (\<lambda>pos. set_state pos (f pos)) ps b) = wraparound b"
  "blocks_even (fold (\<lambda>pos. set_state pos (f pos)) ps b) = blocks_even b"
  "blocks_odd (fold (\<lambda>pos. set_state pos (f pos)) ps b) = blocks_odd b"
  "grid (fold (\<lambda>pos. set_state pos (f pos)) ps b) = grid b"
  by (induction ps arbitrary: b; simp)+

lemma stamp_row_fields [simp]:
  "N (stamp_row x y row b) = N b" "wraparound (stamp_row x y row b) = wraparound b"
  "blocks_even (stamp_row x y row b) = blocks_even b" "blocks_odd (stamp_row x y row b) = blocks_odd b"
  "grid (stamp_row x y row b) = grid b"
  by (induction row arbitrary: y b; simp)+

lemma stamp_fields [simp]:
  "N (stamp x y rows b) = N b" "wraparound (stamp x y rows b) = wraparound b"
  "blocks_even (stamp x y rows b) = blocks_even b" "blocks_odd (stamp x y rows b) = blocks_odd b"
  "grid (stamp x y rows b) = grid b"
  by (induction rows arbitrary: x b; simp)+

lemma Board_init_fields:
  assumes "Board_init n pr w glider mode rnd = Inr b"
  shows "N b = n" "wraparound b = w" "blocks_even b = create_blocks n w 1"
    "blocks_odd b = create_blocks n w 0" "grid b = (\<lambda>pos. nat (fst pos * n + snd pos))"
  using assms
  by (auto simp: Board_init_def Let_def place_pattern_def initialize_odd_columns_def
      initialize_diagonal_pattern_def fold_set_state_fields
      split: sum.splits option.splits if_splits)

lemma Board_init_bad_probability:
  assumes "0 < n" "pr < 0 \<or> 1 < pr"
  shows "Board_init n pr w glider mode rnd = Inl ValueError"
proof -
  have "0 < nat n * nat n" using assms(1) by simp
  then have "new_cells (nat n * nat n) pr (cell_draw rnd) = Inl ValueError"
    using assms(2) by (rule new_cells_bad [rotated])
  then show ?thesis by (simp add: Board_init_def)
qed

lemma Board_init_no_pattern:
  assumes "n \<le> 0 \<or> (0 \<le> pr \<and> pr \<le> 1)"
  shows "\<exists>b. Board_init n pr w None mode rnd = Inr b"
proof -
  have "\<exists>st. new_cells (nat n * nat n) pr (cell_draw rnd) = Inr st"
  proof (cases "n \<le> 0")
    case True
    then show ?thesis by simp
  next
    case False
    with assms show ?thesis by (simp add: new_cells_ok)
  qed
  then show ?thesis by (auto simp: Board_init_def Let_def)
qed

section \<open>Construction and pattern placement\<close>

text \<open>
  Claim C7, as amended. Construction validates nothing itself. It fails, at construction
  time and with the \<^verbatim>\<open>ValueError\<close> of the first cell's draw, when the size is positive and
  the probability lies outside [0, 1]. With no pattern it succeeds in every other case:
  a non-positive size gives an engine with an empty grid, and an odd size an engine with
  an odd-sized grid.
\<close>

theorem construction_fails_on_probability_only:
  "(0 < n \<and> (pr < 0 \<or> 1 < pr) \<longrightarrow>
      GameManager_init n pr ms w glider mode rnd = Inl ValueError) \<and>
   (n \<le> 0 \<or> (0 \<le> pr \<and> pr \<le> 1) \<longrightarrow>
      (\<exists>gm. GameManager_init n pr ms w None mode rnd = Inr gm \<and> gm_N gm = n \<and>
         N (board gm) = n \<and> current_step gm = 0))"
proof (intro conjI impI)
  assume "0 < n \<and> (pr < 0 \<or> 1 < pr)"
  then show "GameManager_init n pr ms w glider mode rnd = Inl ValueError"
    by (simp add: GameManager_init_def Board_init_bad_probability)
next
  assume "n \<le> 0 \<or> (0 \<le> pr \<and> pr \<le> 1)"
  then obtain b where b: "Board_init n pr w None mode rnd = Inr b"
    using Board_init_no_pattern by blast
  then show "\<exists>gm. GameManager_init n pr ms w None mode rnd = Inr gm \<and> gm_N gm = n \<and>
         N (board gm) = n \<and> current_step gm = 0"
    using Board_init_fields(1) [OF b] by (simp add: GameManager_init_def)
qed

theorem construction_fails_on_probability_only_witness:
  "GameManager_init 2 (3 / 2) 250 True None ''Random'' fixed_draws = Inl ValueError \<and>
   (\<exists>gm. GameManager_init 3 (1 / 2) 250 True None ''Random'' fixed_draws = Inr gm \<and>
      gm_N gm = 3 \<and> N (board gm) = 3 \<and> current_step gm = 0) \<and>
   (\<exists>gm. GameManager_init 0 (3 / 2) 250 True None ''Random'' fixed_draws = Inr gm \<and>
      gm_N gm = 0 \<and> N (board gm) = 0 \<and> current_step gm = 0)"
  using construction_fails_on_probability_only [of 2 "3 / 2" 250 True None "''Random''" fixed_draws]
    construction_fails_on_probability_only [of 3 "1 / 2" 250 True None "''Random''" fixed_draws]
    construction_fails_on_probability_only [of 0 "3 / 2" 250 True None "''Random''" fixed_draws]
  by simp

text \<open>
  The claim as the specification words it fails: an odd size, size 0 and a negative size
  are all accepted, and the boards built have that size.
\<close>

theorem construction_accepts_odd_and_empty_counterexample:
  "\<not> isl (GameManager_init 3 (1 / 2) 250 True None ''Random'' fixed_draws) \<and>
   get_state_array (board (projr (GameManager_init 3 (1 / 2) 250 True None ''Random'' fixed_draws)))
     = [[0, 0, 0], [0, 0, 0], [0, 0, 0]] \<and>
   \<not> isl (GameManager_init 0 (1 / 2) 250 True None ''Random'' fixed_draws) \<and>
   \<not> isl (GameManager_init (- 2) (1 / 2) 250 True None ''Random'' fixed_draws)"
  by code_simp

lemma pattern_origin_draws:
  assumes "pattern \<noteq> []"
  shows "pattern_origin n pattern rnd =
           (case randint 0 (fst (draw_bounds n pattern)) (top_draw rnd) of
              Inl e \<Rightarrow> Inl e
            | Inr rt \<Rightarrow>
                (case randint 0 (snd (draw_bounds n pattern)) (left_draw rnd) of
                   Inl e \<Rightarrow> Inl e
                 | Inr rl \<Rightarrow> Inr (rt * 2 + 1, rl * 2 + 1)))"
proof -
  obtain row0 rows where pat: "pattern = row0 # rows"
    using assms by (cases pattern) auto
  show ?thesis
    by (simp only: pattern_origin_def draw_bounds_def pat list.case Let_def fst_conv snd_conv
        list.sel)
qed

lemma new_cells_error: "new_cells k pr coins = Inl e \<Longrightarrow> e = ValueError"
proof (induction k)
  case 0
  then show ?case by simp
next
  case (Suc k)
  then show ?case
    by (auto simp: Cell_init_def random_choice_def split: sum.splits if_splits)
qed

text \<open>
  Claim C8, as amended. When no odd origin inside the grid lets the pattern fit, no guard
  precedes the draws and no error of a kind of its own is raised: the origin is computed
  by the two \<^verbatim>\<open>randint\<close> calls of lines 61 and 62 alone, one of them is made with an upper
  bound that is not positive, and that call raises numpy's \<^verbatim>\<open>ValueError\<close>. The error
  leaves the placement before any cell is written and is also the result of the
  construction of the board.
\<close>

theorem placement_without_origin_fails_in_draw:
  assumes "pattern \<noteq> []" and "N b = n"
    and "\<not> (\<exists>top left. odd top \<and> odd left \<and> 0 \<le> top \<and> 0 \<le> left \<and>
              top + int (length pattern) \<le> n \<and> left + int (length (hd pattern)) \<le> n)"
  shows "(fst (draw_bounds n pattern) \<le> 0 \<and>
            randint 0 (fst (draw_bounds n pattern)) (top_draw rnd) = Inl ValueError \<or>
          0 < fst (draw_bounds n pattern) \<and> snd (draw_bounds n pattern) \<le> 0 \<and>
            randint 0 (snd (draw_bounds n pattern)) (left_draw rnd) = Inl ValueError) \<and>
         pattern_origin n pattern rnd =
           (case randint 0 (fst (draw_bounds n pattern)) (top_draw rnd) of
              Inl e \<Rightarrow> Inl e
            | Inr rt \<Rightarrow>
                (case randint 0 (snd (draw_bounds n pattern)) (left_draw rnd) of
                   Inl e \<Rightarrow> Inl e
                 | Inr rl \<Rightarrow> Inr (rt * 2 + 1, rl * 2 + 1))) \<and>
         place_pattern b pattern rnd = Inl ValueError \<and>
         Board_init n pr w (Some pattern) mode rnd = Inl ValueError"
proof -
  let ?kt = "fst (draw_bounds n pattern)" and ?kl = "snd (draw_bounds n pattern)"
  have "\<not> (1 + int (length pattern) \<le> n \<and> 1 + int (length (hd pattern)) \<le> n)"
    using assms(3) by (metis odd_one zero_le_one)
  then have empty: "?kt \<le> 0 \<or> ?kl \<le> 0"
    by (auto simp: draw_bounds_def)
  then have draws: "?kt \<le> 0 \<and> randint 0 ?kt (top_draw rnd) = Inl ValueError \<or>
      0 < ?kt \<and> ?kl \<le> 0 \<and> randint 0 ?kl (left_draw rnd) = Inl ValueError"
    by (auto simp: randint_def)
  have eq: "pattern_origin n pattern rnd =
           (case randint 0 ?kt (top_draw rnd) of
              Inl e \<Rightarrow> Inl e
            | Inr rt \<Rightarrow>
                (case randint 0 ?kl (left_draw rnd) of
                   Inl e \<Rightarrow> Inl e
                 | Inr rl \<Rightarrow> Inr (rt * 2 + 1, rl * 2 + 1)))"
    using assms(1) by (rule pattern_origin_draws)
  have origin: "pattern_origin n pattern rnd = Inl ValueError"
    unfolding eq using empty by (auto simp: randint_def)
  then have place: "place_pattern b' pattern rnd = Inl ValueError" if "N b' = n" for b'
    using that by (simp add: place_pattern_def)
  have "Board_init n pr w (Some pattern) mode rnd = Inl ValueError"
  proof (cases "new_cells (nat n * nat n) pr (cell_draw rnd)")
    case (Inl e)
    then show ?thesis using new_cells_error [OF Inl] by (simp add: Board_init_def)
  next
    case (Inr st)
    then show ?thesis by (simp add: Board_init_def place)
  qed
  with draws eq place [OF assms(2)] show ?thesis by (intro conjI)
qed

theorem placement_without_origin_fails_in_draw_witness:
  "simulator_glider \<noteq> [] \<and> N dead_board = 4 \<and>
   \<not> (\<exists>top left. odd top \<and> odd left \<and> 0 \<le> top \<and> 0 \<le> left \<and>
         top + int (length simulator_glider) \<le> 4 \<and>
         left + int (length (hd simulator_glider)) \<le> 4) \<and>
   draw_bounds 4 simulator_glider = (0, 1) \<and>
   place_pattern dead_board simulator_glider fixed_draws = Inl ValueError \<and>
   Board_init 4 1 True (Some simulator_glider) ''Glider'' fixed_draws = Inl ValueError"
proof -
  have h1: "simulator_glider \<noteq> []" by code_simp
  have h2: "N dead_board = 4" by code_simp
  have len: "int (length simulator_glider) = 4" by code_simp
  have h3: "\<not> (\<exists>top left. odd top \<and> odd left \<and> 0 \<le> top \<and> 0 \<le> left \<and>
         top + int (length simulator_glider) \<le> 4 \<and>
         left + int (length (hd simulator_glider)) \<le> 4)"
    unfolding len by presburger
  have bounds: "draw_bounds 4 simulator_glider = (0, 1)" by code_simp
  note inst = placement_without_origin_fails_in_draw
    [OF h1 h2 h3, of fixed_draws 1 True "''Glider''"]
  have "place_pattern dead_board simulator_glider fixed_draws = Inl ValueError"
    by (rule inst [THEN conjunct2, THEN conjunct2, THEN conjunct1])
  moreover have
    "Board_init 4 1 True (Some simulator_glider) ''Glider'' fixed_draws = Inl ValueError"
    by (rule inst [THEN conjunct2, THEN conjunct2, THEN conjunct2])
  ultimately show ?thesis using h1 h2 h3 bounds by (intro conjI)
qed

text \<open>
  The claim as the specification words it fails on a grid of size 4 and the simulator's
  pattern of height 4. The first draw is attempted with the empty range from 0 to 0, the
  error is the one that call raises, and the construction returns the same error as a
  construction with the probability 3/2: a caller cannot tell the two failures apart.
\<close>

theorem placement_error_is_the_draws_counterexample:
  "draw_bounds 4 simulator_glider = (0, 1) \<and>
   randint 0 0 (top_draw fixed_draws) = Inl ValueError \<and>
   pattern_origin 4 simulator_glider fixed_draws = Inl ValueError \<and>
   Board_init 4 1 True (Some simulator_glider) ''Glider'' fixed_draws = Inl ValueError \<and>
   Board_init 4 (3 / 2) True None ''Random'' fixed_draws = Inl ValueError"
proof -
  have bounds: "draw_bounds 4 simulator_glider = (0, 1)" by code_simp
  have draw: "randint 0 0 (top_draw fixed_draws) = Inl ValueError" by code_simp
  have origin: "pattern_origin 4 simulator_glider fixed_draws = Inl ValueError" by code_simp
  have placed:
    "Board_init 4 1 True (Some simulator_glider) ''Glider'' fixed_draws = Inl ValueError"
    by (simp add: Board_init_def new_cells_ok place_pattern_def origin)
  have "(0::int) < 4" "(3 / 2 :: real) < 0 \<or> 1 < (3 / 2 :: real)" by simp_all
  then have "Board_init 4 (3 / 2) True None ''Random'' fixed_draws = Inl ValueError"
    by (rule Board_init_bad_probability)
  with bounds draw origin placed show ?thesis by (intro conjI)
qed

subsection \<open>The fresh grid and the stamp\<close>

lemma row_major_inj:
  assumes "0 \<le> x" "0 \<le> y" "y < n" "0 \<le> x'" "0 \<le> y'" "y' < n"
    and "nat (x * n + y) = nat (x' * n + y')"
  shows "x = x' \<and> y = (y'::int)"
proof -
  have n: "0 < n" using assms(2,3) by simp
  have "0 \<le> x * n + y" "0 \<le> x' * n + y'" using assms n by simp_all
  with assms(7) have eq: "x * n + y = x' * n + y'" by simp
  have "(x * n + y) div n = x" "(x' * n + y') div n = x'"
    using assms n by simp_all
  with eq have "x = x'" by simp
  with eq show ?thesis by simp
qed

lemma row_major_bound:
  assumes "0 \<le> x" "x < n" "0 \<le> y" "y < (n::int)"
  shows "nat (x * n + y) < nat n * nat n"
proof -
  have "x * n + y < (x + 1) * n" using assms by (simp add: algebra_simps)
  also have "\<dots> \<le> n * n" using assms by (intro mult_right_mono) simp_all
  finally have lt: "x * n + y < n * n" .
  have "0 \<le> x * n + y" using assms by simp
  with lt have "nat (x * n + y) < nat (n * n)" by simp
  moreover have "nat (n * n) = nat n * nat n" using assms by (simp add: nat_mult_distrib)
  ultimately show ?thesis by simp
qed

lemma wf_board_row_major:
  assumes "grid b = (\<lambda>pos. nat (fst pos * N b + snd pos))"
  shows "wf_board b"
  unfolding wf_board_inj inj_on_def
proof (intro ballI impI)
  fix p q
  assume "p \<in> {pos. in_grid b pos}" "q \<in> {pos. in_grid b pos}" "grid b p = grid b q"
  then have "fst p = fst q \<and> snd p = snd q"
    using row_major_inj [of "fst p" "snd p" "N b" "fst q" "snd q"]
    by (simp add: assms in_grid_def)
  then show "p = q" by (simp add: prod_eq_iff)
qed

lemma wf_board_set_state [simp]: "wf_board (set_state pos v b) = wf_board b"
  by (simp add: wf_board_def)

lemma in_grid_set_state [simp]: "in_grid (set_state q v b) pos = in_grid b pos"
  by (simp add: in_grid_def)

lemma state_at_set_state:
  assumes "wf_board b" "in_grid b pos" "in_grid b q"
  shows "state_at (set_state q v b) pos = (if pos = q then v else state_at b pos)"
  using wf_board_neq [OF assms(1,2,3)] by (auto simp: state_at_def set_state_def)

lemma stamp_row_wf [simp]: "wf_board (stamp_row x y row b) = wf_board b"
  by (simp add: wf_board_def)

lemma stamp_row_in_grid [simp]: "in_grid (stamp_row x y row b) pos = in_grid b pos"
  by (simp add: in_grid_def)

lemma stamp_row_state:
  assumes "wf_board b" "in_grid b pos"
  shows "state_at (stamp_row x y row b) pos =
           (if fst pos = x \<and> y \<le> snd pos \<and> snd pos < y + int (length row)
            then row ! nat (snd pos - y) else state_at b pos)"
  using assms
proof (induction row arbitrary: y b)
  case Nil
  then show ?case by simp
next
  case (Cons v row)
  define b1 where "b1 = (if 0 \<le> x \<and> x < N b \<and> 0 \<le> y \<and> y < N b then set_state (x, y) v b else b)"
  have unfold: "stamp_row x y (v # row) b = stamp_row x (y + 1) row b1"
    by (simp add: b1_def)
  have wf1: "wf_board b1" and in1: "in_grid b1 pos"
    using Cons.prems by (simp_all add: b1_def)
  have s1: "state_at b1 pos = (if pos = (x, y) then v else state_at b pos)"
  proof (cases "0 \<le> x \<and> x < N b \<and> 0 \<le> y \<and> y < N b")
    case True
    then have "in_grid b (x, y)" by (simp add: in_grid_def)
    with True Cons.prems show ?thesis by (simp add: b1_def state_at_set_state)
  next
    case False
    with Cons.prems(2) have "pos \<noteq> (x, y)" by (auto simp: in_grid_def)
    with False show ?thesis by (auto simp: b1_def)
  qed
  have idx: "(v # row) ! nat (snd pos - y) = row ! nat (snd pos - (y + 1))" if "y + 1 \<le> snd pos"
  proof -
    have "nat (snd pos - y) = Suc (nat (snd pos - (y + 1)))" using that by simp
    then show ?thesis by simp
  qed
  have ih: "state_at (stamp_row x (y + 1) row b1) pos =
          (if fst pos = x \<and> y + 1 \<le> snd pos \<and> snd pos < y + 1 + int (length row)
           then row ! nat (snd pos - (y + 1)) else state_at b1 pos)"
    using Cons.IH [OF wf1 in1] .
  consider (here) "pos = (x, y)" | (right) "fst pos = x" "y + 1 \<le> snd pos"
    | (other) "fst pos \<noteq> x \<or> snd pos < y"
    by (cases pos) fastforce
  then show ?case
  proof cases
    case here
    show ?thesis unfolding unfold ih s1 using here by simp
  next
    case right
    then have "snd pos \<noteq> y" "y \<le> snd pos" by simp_all
    then have "pos \<noteq> (x, y)" "y \<le> snd pos" by (simp_all add: prod_eq_iff)
    then show ?thesis
      using right unfolding unfold by (simp add: ih s1 idx [OF right(2)] del: nth_Cons_Suc)
  next
    case other
    then have "pos \<noteq> (x, y)" by (auto simp: prod_eq_iff)
    then show ?thesis using other unfolding unfold by (auto simp: ih s1)
  qed
qed

lemma stamp_state:
  assumes "wf_board b" "in_grid b pos"
  shows "state_at (stamp x y rows b) pos =
           (if x \<le> fst pos \<and> fst pos < x + int (length rows) \<and> y \<le> snd pos \<and>
               snd pos < y + int (length (rows ! nat (fst pos - x)))
            then rows ! nat (fst pos - x) ! nat (snd pos - y) else state_at b pos)"
  using assms
proof (induction rows arbitrary: x b)
  case Nil
  then show ?case by simp
next
  case (Cons row rows)
  define b1 where "b1 = stamp_row x y row b"
  have unfold: "stamp x y (row # rows) b = stamp (x + 1) y rows b1"
    by (simp add: b1_def)
  have wf1: "wf_board b1" and in1: "in_grid b1 pos"
    using Cons.prems by (simp_all add: b1_def)
  have idx: "(row # rows) ! nat (fst pos - x) = rows ! nat (fst pos - (x + 1))" if "x + 1 \<le> fst pos"
  proof -
    have "nat (fst pos - x) = Suc (nat (fst pos - (x + 1)))" using that by simp
    then show ?thesis by simp
  qed
  have ih: "state_at (stamp (x + 1) y rows b1) pos =
          (if x + 1 \<le> fst pos \<and> fst pos < x + 1 + int (length rows) \<and> y \<le> snd pos \<and>
              snd pos < y + int (length (rows ! nat (fst pos - (x + 1))))
           then rows ! nat (fst pos - (x + 1)) ! nat (snd pos - y) else state_at b1 pos)"
    using Cons.IH [OF wf1 in1] .
  have row: "state_at b1 pos =
          (if fst pos = x \<and> y \<le> snd pos \<and> snd pos < y + int (length row)
           then row ! nat (snd pos - y) else state_at b pos)"
    unfolding b1_def using Cons.prems by (rule stamp_row_state)
  consider (first) "fst pos = x" | (later) "x + 1 \<le> fst pos" | (before) "fst pos < x"
    by linarith
  then show ?case
  proof cases
    case first
    then show ?thesis unfolding unfold by (simp add: ih row)
  next
    case later
    then have "x \<le> fst pos" "fst pos \<noteq> x" by simp_all
    then show ?thesis
      using later unfolding unfold by (simp add: ih row idx [OF later] del: nth_Cons_Suc)
  next
    case before
    then show ?thesis unfolding unfold by (simp add: ih row)
  qed
qed

lemma pattern_origin_ok:
  assumes "pattern \<noteq> []" "int (length pattern) < n" "int (length (hd pattern)) < n"
  shows "\<exists>top left. pattern_origin n pattern rnd = Inr (top, left) \<and> odd top \<and> odd left \<and>
           0 < top \<and> 0 < left \<and> top + int (length pattern) \<le> n \<and>
           left + int (length (hd pattern)) \<le> n"
proof -
  obtain row0 rows where pat: "pattern = row0 # rows"
    using assms(1) by (cases pattern) auto
  define kt where "kt = (n - int (length pattern) + 1) div 2"
  define kl where "kl = (n - int (length row0) + 1) div 2"
  define rt where "rt = int (top_draw rnd) mod kt"
  define rl where "rl = int (left_draw rnd) mod kl"
  have k: "0 < kt" "0 < kl" "2 * kt \<le> n - int (length pattern) + 1"
    "2 * kl \<le> n - int (length row0) + 1"
    using assms(2,3) by (simp_all add: kt_def kl_def pat)
  have r: "0 \<le> rt" "rt < kt" "0 \<le> rl" "rl < kl"
    using k(1,2) by (simp_all add: rt_def rl_def)
  have "pattern_origin n pattern rnd = Inr (rt * 2 + 1, rl * 2 + 1)"
    using k(1,2)
    by (simp add: pattern_origin_def pat Let_def randint_def kt_def kl_def rt_def rl_def)
  moreover have "odd (rt * 2 + 1)" "odd (rl * 2 + 1)" by simp_all
  moreover have "0 < rt * 2 + 1" "0 < rl * 2 + 1" using r by simp_all
  moreover have "rt * 2 + 1 + int (length pattern) \<le> n"
    "rl * 2 + 1 + int (length (hd pattern)) \<le> n"
    using r k by (simp_all add: pat)
  ultimately show ?thesis by blast
qed

lemma Board_init_pattern:
  assumes "0 \<le> pr" "pr \<le> 1" "pattern_origin n pattern rnd = Inr (x0, y0)"
  shows "Board_init n pr w (Some pattern) mode rnd =
           Inr (stamp x0 y0 pattern
                 \<lparr>N = n, wraparound = w, blocks_even = create_blocks n w 1,
                  blocks_odd = create_blocks n w 0,
                  grid = (\<lambda>pos. nat (fst pos * n + snd pos)),
                  state = (\<lambda>c. if c < nat n * nat n then drawn_value pr (cell_draw rnd c) else 0)\<rparr>)"
  using assms by (simp add: Board_init_def new_cells_ok place_pattern_def)

text \<open>
  Claim C9, as amended. With a probability in [0, 1] and a rectangular pattern lower and
  narrower than the grid, the construction with a pattern succeeds; the origin drawn has
  two odd coordinates and leaves the pattern inside the grid; every position of the
  stamped region holds the pattern's value; and every grid position outside the region
  keeps the state that was drawn for its cell with probability p, whatever that is.
\<close>

theorem pattern_stamped_at_odd_origin:
  assumes "0 \<le> pr" and "pr \<le> 1" and "pattern \<noteq> []"
    and "\<forall>row \<in> set pattern. length row = length (hd pattern)"
    and "int (length pattern) < n" and "int (length (hd pattern)) < n"
  shows "\<exists>top left b. pattern_origin n pattern rnd = Inr (top, left) \<and>
           Board_init n pr w (Some pattern) mode rnd = Inr b \<and>
           odd top \<and> odd left \<and> 0 < top \<and> 0 < left \<and>
           top + int (length pattern) \<le> n \<and> left + int (length (hd pattern)) \<le> n \<and>
           (\<forall>i < length pattern. \<forall>j < length (hd pattern).
              state_at b (top + int i, left + int j) = pattern ! i ! j) \<and>
           (\<forall>pos. in_grid b pos \<and>
                \<not> (top \<le> fst pos \<and> fst pos < top + int (length pattern) \<and>
                   left \<le> snd pos \<and> snd pos < left + int (length (hd pattern))) \<longrightarrow>
              state_at b pos = drawn_value pr (cell_draw rnd (grid b pos)))"
proof -
  obtain tp lf where origin: "pattern_origin n pattern rnd = Inr (tp, lf)"
    and odd: "odd tp" "odd lf" and pos: "0 < tp" "0 < lf"
    and fits: "tp + int (length pattern) \<le> n" "lf + int (length (hd pattern)) \<le> n"
    using pattern_origin_ok [OF assms(3,5,6)] by blast
  define b0 where "b0 = \<lparr>N = n, wraparound = w, blocks_even = create_blocks n w 1,
                  blocks_odd = create_blocks n w 0,
                  grid = (\<lambda>pos. nat (fst pos * n + snd pos)),
                  state = (\<lambda>c. if c < nat n * nat n then drawn_value pr (cell_draw rnd c) else 0)\<rparr>"
  define b where "b = stamp tp lf pattern b0"
  have built: "Board_init n pr w (Some pattern) mode rnd = Inr b"
    unfolding b_def b0_def using assms(1,2) origin by (rule Board_init_pattern)
  have n0: "N b0 = n" and g0: "grid b0 = (\<lambda>pos. nat (fst pos * n + snd pos))"
    by (simp_all add: b0_def)
  have wf0: "wf_board b0"
    by (rule wf_board_row_major) (simp add: g0 n0)
  have fresh: "state_at b0 q = drawn_value pr (cell_draw rnd (grid b0 q))" if "in_grid b0 q" for q
  proof -
    have "nat (fst q * n + snd q) < nat n * nat n"
      using that by (intro row_major_bound) (simp_all add: in_grid_def n0)
    then show ?thesis by (simp add: state_at_def b0_def)
  qed
  have gb: "grid b = grid b0" and ing: "in_grid b = in_grid b0"
    by (simp_all add: b_def fun_eq_iff in_grid_def)
  have rows: "length (pattern ! k) = length (hd pattern)" if "k < length pattern" for k
    using assms(4) that by simp
  have stamped: "state_at b q =
      (if tp \<le> fst q \<and> fst q < tp + int (length pattern) \<and> lf \<le> snd q \<and>
          snd q < lf + int (length (pattern ! nat (fst q - tp)))
       then pattern ! nat (fst q - tp) ! nat (snd q - lf) else state_at b0 q)"
    if "in_grid b0 q" for q
    unfolding b_def using wf0 that by (rule stamp_state)
  have inside: "state_at b (tp + int i, lf + int j) = pattern ! i ! j"
    if "i < length pattern" "j < length (hd pattern)" for i j
  proof -
    have "in_grid b0 (tp + int i, lf + int j)"
      using that pos fits by (simp add: in_grid_def n0)
    from stamped [OF this] show ?thesis
      using that rows [OF that(1)] by simp
  qed
  have outside: "state_at b q = drawn_value pr (cell_draw rnd (grid b q))"
    if "in_grid b q" "\<not> (tp \<le> fst q \<and> fst q < tp + int (length pattern) \<and>
                   lf \<le> snd q \<and> snd q < lf + int (length (hd pattern)))" for q
  proof -
    have q: "in_grid b0 q" using that(1) by (simp add: ing)
    have "\<not> (tp \<le> fst q \<and> fst q < tp + int (length pattern) \<and> lf \<le> snd q \<and>
          snd q < lf + int (length (pattern ! nat (fst q - tp))))"
    proof
      assume a: "tp \<le> fst q \<and> fst q < tp + int (length pattern) \<and> lf \<le> snd q \<and>
          snd q < lf + int (length (pattern ! nat (fst q - tp)))"
      then have "nat (fst q - tp) < length pattern" by linarith
      from rows [OF this] a that(2) show False by simp
    qed
    with stamped [OF q] fresh [OF q] show ?thesis by (simp add: gb)
  qed
  from origin built odd pos fits inside outside show ?thesis by blast
qed

theorem pattern_stamped_at_odd_origin_witness:
  "simulator_glider \<noteq> [] \<and> list_all (\<lambda>row. length row = 2) simulator_glider \<and>
   int (length simulator_glider) < 6 \<and> int (length (hd simulator_glider)) < 6 \<and>
   pattern_origin 6 simulator_glider fixed_draws = Inr (1, 1) \<and>
   Board_init 6 1 True (Some simulator_glider) ''Glider'' fixed_draws = Inr glider_board \<and>
   state_at glider_board (4, 2) = simulator_glider ! 3 ! 1 \<and>
   state_at glider_board (0, 0) = drawn_value 1 (cell_draw fixed_draws (grid glider_board (0, 0)))"
proof -
  have h1: "simulator_glider \<noteq> []" by code_simp
  have h2: "\<forall>row \<in> set simulator_glider. length row = length (hd simulator_glider)" by code_simp
  have h3: "int (length simulator_glider) < 6" by code_simp
  have h4: "int (length (hd simulator_glider)) < 6" by code_simp
  have len: "length simulator_glider = 4" "length (hd simulator_glider) = 2"
    by code_simp+
  have o: "pattern_origin 6 simulator_glider fixed_draws = Inr (1, 1)"
    by code_simp
  have g: "in_grid glider_board (0, 0)"
    by code_simp
  have p: "(0::real) \<le> 1" "(1::real) \<le> 1" by simp_all
  note inst = pattern_stamped_at_odd_origin
    [OF p h1 h2 h3 h4, of fixed_draws True "''Glider''", unfolded o len]
  from inst obtain tp lf b where t: "Inr (1, 1) = (Inr (tp, lf) :: error + int \<times> int)"
    and b: "Board_init 6 1 True (Some simulator_glider) ''Glider'' fixed_draws = Inr b"
    and inside: "\<forall>i < 4. \<forall>j < 2. state_at b (tp + int i, lf + int j) = simulator_glider ! i ! j"
    and outside: "\<forall>pos. in_grid b pos \<and>
                \<not> (tp \<le> fst pos \<and> fst pos < tp + int 4 \<and> lf \<le> snd pos \<and> snd pos < lf + int 2) \<longrightarrow>
              state_at b pos = drawn_value 1 (cell_draw fixed_draws (grid b pos))"
    by (elim exE conjE) (rule that)
  have tl: "tp = 1" "lf = 1" using t by simp_all
  have eq: "b = glider_board"
    using b glider_board_built by simp
  have "(3::nat) < 4" "(1::nat) < 2" by simp_all
  from inside [rule_format, OF this]
  have "state_at glider_board (1 + int 3, 1 + int 1) = simulator_glider ! 3 ! 1"
    by (simp only: eq tl)
  then have in_val: "state_at glider_board (4, 2) = simulator_glider ! 3 ! 1"
    by simp
  have "\<not> (1 \<le> fst (0::int, 0::int) \<and> fst (0::int, 0::int) < 1 + int 4 \<and>
           1 \<le> snd (0::int, 0::int) \<and> snd (0::int, 0::int) < 1 + int 2)"
    by simp
  with g outside [rule_format, of "(0, 0)", unfolded eq tl]
  have out_val: "state_at glider_board (0, 0) =
      drawn_value 1 (cell_draw fixed_draws (grid glider_board (0, 0)))"
    by (simp only: simp_thms)
  have rect: "list_all (\<lambda>row. length row = 2) simulator_glider" by code_simp
  from h1 rect h3 h4 o glider_board_built in_val out_val show ?thesis
    by (intro conjI)
qed

text \<open>
  The claim as the specification words it fails on the board the simulator builds in
  Glider mode, where the probability is 1: the pattern occupies rows 1 to 4 and columns
  1 and 2, and the cells outside that region, such as the corner (0, 0), are alive.
\<close>

theorem cells_outside_pattern_counterexample:
  "pattern_origin 6 simulator_glider fixed_draws = Inr (1, 1) \<and>
   Board_init 6 1 True (Some simulator_glider) ''Glider'' fixed_draws = Inr glider_board \<and>
   state_at glider_board (0, 0) = 1 \<and>
   get_state_array glider_board =
     [[1, 1, 1, 1, 1, 1], [1, 0, 1, 1, 1, 1], [1, 1, 0, 1, 1, 1], [1, 1, 0, 1, 1, 1],
      [1, 0, 1, 1, 1, 1], [1, 1, 1, 1, 1, 1]]"
proof -
  have o: "pattern_origin 6 simulator_glider fixed_draws = Inr (1, 1)"
    by code_simp
  have s: "state_at glider_board (0, 0) = 1"
    by code_simp
  have a: "get_state_array glider_board =
     [[1, 1, 1, 1, 1, 1], [1, 0, 1, 1, 1, 1], [1, 1, 0, 1, 1, 1], [1, 1, 0, 1, 1, 1],
      [1, 0, 1, 1, 1, 1], [1, 1, 1, 1, 1, 1]]"
    by code_simp
  from o glider_board_built s a show ?thesis
    by (intro conjI)
qed

subsection \<open>The two invariants hold on every board the program builds\<close>

lemma Board_init_wf:
  assumes "Board_init n pr w glider mode rnd = Inr b"
  shows "wf_board b"
  using Board_init_fields(1,5) [OF assms] by (intro wf_board_row_major) simp

lemma Board_init_lists:
  assumes "Board_init n pr w glider mode rnd = Inr b"
  shows "lists_as_built b"
  using Board_init_fields [OF assms] by (simp add: lists_as_built_def)

lemma drawn_value_binary: "drawn_value pr coin = 0 \<or> drawn_value pr coin = 1"
  by (simp add: drawn_value_def)

lemma cells_binary_board: "\<forall>c. state b c = 0 \<or> state b c = 1 \<Longrightarrow> binary b"
  by (simp add: binary_def list_all_iff state_at_def)

lemma new_cells_binary:
  "new_cells k pr coins = Inr st \<Longrightarrow> st c = 0 \<or> st c = 1"
proof (induction k arbitrary: st)
  case 0
  then show ?case by auto
next
  case (Suc k)
  then show ?case
    using drawn_value_binary [of pr "coins k"]
    by (auto simp: Cell_init_def random_choice_def split: sum.splits if_splits)
qed

lemma fold_set_state_binary:
  assumes "\<forall>c. state b c = 0 \<or> state b c = 1" "\<forall>pos. f pos = 0 \<or> f pos = 1"
  shows "\<forall>c. state (fold (\<lambda>pos. set_state pos (f pos)) ps b) c = 0 \<or>
             state (fold (\<lambda>pos. set_state pos (f pos)) ps b) c = 1"
  using assms(1)
proof (induction ps arbitrary: b)
  case Nil
  then show ?case by simp
next
  case (Cons q ps)
  have "\<forall>c. state (set_state q (f q) b) c = 0 \<or> state (set_state q (f q) b) c = 1"
    using Cons.prems assms(2) [rule_format, of q] by (simp add: set_state_def)
  from Cons.IH [OF this] show ?case by simp
qed

lemma stamp_row_binary:
  assumes "\<forall>c. state b c = 0 \<or> state b c = 1" "\<forall>v \<in> set row. v = 0 \<or> v = 1"
  shows "\<forall>c. state (stamp_row x y row b) c = 0 \<or> state (stamp_row x y row b) c = 1"
  using assms
proof (induction row arbitrary: y b)
  case Nil
  then show ?case by simp
next
  case (Cons v row)
  define b1 where "b1 = (if 0 \<le> x \<and> x < N b \<and> 0 \<le> y \<and> y < N b then set_state (x, y) v b else b)"
  have "\<forall>c. state b1 c = 0 \<or> state b1 c = 1"
    using Cons.prems by (simp add: b1_def set_state_def)
  moreover have "\<forall>v \<in> set row. v = 0 \<or> v = 1" using Cons.prems(2) by simp
  ultimately have "\<forall>c. state (stamp_row x (y + 1) row b1) c = 0 \<or>
      state (stamp_row x (y + 1) row b1) c = 1"
    by (rule Cons.IH)
  then show ?case by (simp add: b1_def)
qed

lemma stamp_binary:
  assumes "\<forall>c. state b c = 0 \<or> state b c = 1" "\<forall>row \<in> set rows. \<forall>v \<in> set row. v = 0 \<or> v = 1"
  shows "\<forall>c. state (stamp x y rows b) c = 0 \<or> state (stamp x y rows b) c = 1"
  using assms
proof (induction rows arbitrary: x b)
  case Nil
  then show ?case by simp
next
  case (Cons row rows)
  have "\<forall>c. state (stamp_row x y row b) c = 0 \<or> state (stamp_row x y row b) c = 1"
    using Cons.prems by (intro stamp_row_binary) simp_all
  moreover have "\<forall>row \<in> set rows. \<forall>v \<in> set row. v = 0 \<or> v = 1"
    using Cons.prems(2) by simp
  ultimately show ?case
    unfolding stamp.simps by (rule Cons.IH)
qed

lemma Board_init_binary:
  assumes "Board_init n pr w glider mode rnd = Inr b"
    and "\<forall>pattern. glider = Some pattern \<longrightarrow> (\<forall>row \<in> set pattern. \<forall>v \<in> set row. v = 0 \<or> v = 1)"
  shows "binary b"
proof -
  obtain st where st: "new_cells (nat n * nat n) pr (cell_draw rnd) = Inr st"
    using assms(1) by (auto simp: Board_init_def split: sum.splits)
  define b0 where "b0 = \<lparr>N = n, wraparound = w, blocks_even = create_blocks n w 1,
       blocks_odd = create_blocks n w 0, grid = (\<lambda>pos. nat (fst pos * n + snd pos)),
       state = st\<rparr>"
  have b0: "\<forall>c. state b0 c = 0 \<or> state b0 c = 1"
    using new_cells_binary [OF st] by (simp add: b0_def)
  have "\<forall>c. state b c = 0 \<or> state b c = 1"
  proof (cases glider)
    case None
    then have "b = initialize_odd_columns b0 \<or> b = initialize_diagonal_pattern b0 \<or> b = b0"
      using assms(1) st by (auto simp: Board_init_def b0_def Let_def split: if_splits)
    moreover have "\<forall>c. state (initialize_odd_columns b0) c = 0 \<or>
        state (initialize_odd_columns b0) c = 1"
      unfolding initialize_odd_columns_def by (rule fold_set_state_binary [OF b0]) simp
    moreover have "\<forall>c. state (initialize_diagonal_pattern b0) c = 0 \<or>
        state (initialize_diagonal_pattern b0) c = 1"
      unfolding initialize_diagonal_pattern_def by (rule fold_set_state_binary [OF b0]) simp
    ultimately show ?thesis using b0 by blast
  next
    case (Some pattern)
    then obtain origin where "b = stamp (fst origin) (snd origin) pattern b0"
      using assms(1) st
      by (auto simp: Board_init_def b0_def Let_def place_pattern_def split: sum.splits)
    then show ?thesis
      using stamp_binary [OF b0] assms(2) Some by simp
  qed
  then show ?thesis by (rule cells_binary_board)
qed

lemma fold_flip_cells_binary:
  "\<forall>c. state b c = 0 \<or> state b c = 1 \<Longrightarrow>
   \<forall>c. state (fold flip cs b) c = 0 \<or> state (fold flip cs b) c = 1"
proof (induction cs arbitrary: b)
  case Nil
  then show ?case by simp
next
  case (Cons a cs)
  have "state b a = 0 \<or> state b a = 1" using Cons.prems by simp
  then have "state b a XOR 1 = 0 \<or> state b a XOR 1 = 1" by auto
  then have "\<forall>c. state (flip a b) c = 0 \<or> state (flip a b) c = 1"
    using Cons.prems by (simp add: flip_def)
  from Cons.IH [OF this] show ?case by simp
qed

lemma apply_block_rules_cells_binary:
  assumes "apply_block_rules b i j = Inr b'" "\<forall>c. state b c = 0 \<or> state b c = 1"
  shows "\<forall>c. state b' c = 0 \<or> state b' c = 1"
proof -
  let ?b2 = "swap_cells (swap_cells b (i, j) ((i + 1) mod N b, (j + 1) mod N b))
               (i, (j + 1) mod N b) ((i + 1) mod N b, j)"
  have "\<forall>c. state ?b2 c = 0 \<or> state ?b2 c = 1"
    using assms(2) by simp
  then have "\<forall>c. state (fold flip cs ?b2) c = 0 \<or> state (fold flip cs ?b2) c = 1" for cs
    by (rule fold_flip_cells_binary)
  moreover have "\<forall>c. state (fold flip cs b) c = 0 \<or> state (fold flip cs b) c = 1" for cs
    using assms(2) by (rule fold_flip_cells_binary)
  moreover have "b' = b \<or> (\<exists>cs. b' = fold flip cs b) \<or> (\<exists>cs. b' = fold flip cs ?b2)"
    using assms(1)
    by (auto simp: apply_block_rules_def Let_def split: if_splits sum.splits)
  ultimately show ?thesis using assms(2) by blast
qed

subsection \<open>The invariants along a run, and the grid of one cell\<close>

lemma Board_step_invariants:
  assumes "wf_board b" "lists_as_built b"
  shows "\<exists>b'. Board_step b even_gen = Inr b' \<and> wf_board b' \<and> lists_as_built b' \<and>
           N b' = N b \<and> wraparound b' = wraparound b"
proof -
  let ?bs = "create_blocks (N b) (wraparound b) (if even_gen then 1 else 0)"
  have list: "(if even_gen then blocks_even b else blocks_odd b) = ?bs"
    using assms(2) by (simp add: lists_as_built_def)
  have "\<forall>origin \<in> set ?bs. in_grid b origin"
    using create_blocks_in_grid [of _ _ b "wraparound b" "if even_gen then 1 else 0"] by auto
  from apply_blocks_frame [OF assms(1) this]
  obtain b' where "apply_blocks b ?bs = Inr b'" "N b' = N b" "wraparound b' = wraparound b"
    "blocks_even b' = blocks_even b" "blocks_odd b' = blocks_odd b" "wf_board b'"
    by blast
  then show ?thesis
    using assms(2) by (simp add: Board_step_def list lists_as_built_def)
qed

lemma GameManager_step_invariants:
  assumes "wf_board (board gm)" "lists_as_built (board gm)"
  shows "\<exists>gm'. GameManager_step gm = Inr gm' \<and> wf_board (board gm') \<and>
           lists_as_built (board gm') \<and> current_step gm' = current_step gm + 1"
proof -
  obtain b' where "Board_step (board gm) (current_step gm mod 2 = 0) = Inr b'"
    "wf_board b'" "lists_as_built b'"
    using Board_step_invariants [OF assms] by blast
  then show ?thesis by (simp add: GameManager_step_def)
qed

text \<open>
  On a grid of one cell with wraparound the four index pairs of line 83 denote the same
  cell object: the density read is 4 and the four flips cancel. Such a grid has no block
  of four cells, which is why the facts about flipped blocks ask for a size of at least 2.
\<close>

lemma one_cell_grid_flips_cancel:
  "block_states single_board 0 0 = [1, 1, 1, 1] \<and> density single_board 0 0 = 4 \<and>
   get_state_array single_board = [[1]] \<and>
   get_state_array (projr (apply_block_rules single_board 0 0)) = [[1]]"
  by code_simp

end
